theory Spec2Isabelle
  imports Complex_Main "HOL-Library.Word"
begin

section \<open>Edit distance (bktree.cc)\<close>

text \<open>
  Both distance functions keep one row of the dynamic-programming table in the local
  array \<open>int row[n + 1]\<close>. The array is not initialised when it is declared; the first
  loop assigns the cells \<open>1..n\<close> only, and cell \<open>0\<close> is assigned at the start of every
  round of the loop over \<open>s1\<close>. The model therefore takes the content that cell \<open>0\<close>
  happens to hold at its declaration as the argument \<open>r0\<close>.

  Lengths and table cells are \<open>int\<close> in the source; every value written to a cell lies
  between \<open>0\<close> and the longer of the two lengths, so the cells are modelled as unbounded
  integers, for strings shorter than \<open>2^31 - 1\<close> bytes.
\<close>

definition init_row :: "int \<Rightarrow> nat \<Rightarrow> int list" where
  "init_row r0 n = r0 # map int [1..<Suc n]"

text \<open>
  The loop over \<open>x\<close> of one round \<open>y\<close>: \<open>c\<close> is \<open>s1[y - 1]\<close>, and \<open>previous\<close> the cell to
  the upper left.
\<close>

function inner_loop :: "char \<Rightarrow> string \<Rightarrow> nat \<Rightarrow> int \<Rightarrow> int list \<Rightarrow> int list" where
  "inner_loop c s2 x previous row =
     (if x \<le> length s2 then
        let old_row = row ! x;
            row' = row[x := min (previous + (if c = s2 ! (x - 1) then 0 else 1))
                               (min (row ! (x - 1)) (row ! x) + 1)]
        in inner_loop c s2 (x + 1) old_row row'
      else row)"
  by pat_completeness auto
termination
  by (relation "measure (\<lambda>(c, s2, x, previous, row). Suc (length s2) - x)") auto

function outer_loop :: "string \<Rightarrow> string \<Rightarrow> nat \<Rightarrow> int list \<Rightarrow> int list" where
  "outer_loop s1 s2 y row =
     (if y \<le> length s1 then
        outer_loop s1 s2 (y + 1) (inner_loop (s1 ! (y - 1)) s2 1 (int y - 1) (row[0 := int y]))
      else row)"
  by pat_completeness auto
termination
  by (relation "measure (\<lambda>(s1, s2, y, row). Suc (length s1) - y)") auto

definition edit_distance :: "int \<Rightarrow> string \<Rightarrow> string \<Rightarrow> int" where
  "edit_distance r0 s1 s2 = outer_loop s1 s2 1 (init_row r0 (length s2)) ! length s2"

text \<open>
  \<open>edit_distance_bound\<close>: the same loops, with the least cell of the round tracked in
  \<open>best_this_row\<close> and the early return after each round.
\<close>

function inner_loop_bound ::
  "char \<Rightarrow> string \<Rightarrow> nat \<Rightarrow> int \<Rightarrow> int list \<Rightarrow> int \<Rightarrow> int list \<times> int" where
  "inner_loop_bound c s2 x previous row best_this_row =
     (if x \<le> length s2 then
        let old_row = row ! x;
            row' = row[x := min (previous + (if c = s2 ! (x - 1) then 0 else 1))
                               (min (row ! (x - 1)) (row ! x) + 1)]
        in inner_loop_bound c s2 (x + 1) old_row row' (min best_this_row (row' ! x))
      else (row, best_this_row))"
  by pat_completeness auto
termination
  by (relation "measure (\<lambda>(c, s2, x, previous, row, best). Suc (length s2) - x)") auto

function outer_loop_bound :: "string \<Rightarrow> string \<Rightarrow> int \<Rightarrow> nat \<Rightarrow> int list \<Rightarrow> int" where
  "outer_loop_bound s1 s2 upper_bound y row =
     (if y \<le> length s1 then
        case inner_loop_bound (s1 ! (y - 1)) s2 1 (int y - 1) (row[0 := int y]) (int y) of
          (row', best_this_row) \<Rightarrow>
            if best_this_row > upper_bound then upper_bound + 1
            else outer_loop_bound s1 s2 upper_bound (y + 1) row'
      else row ! length s2)"
  by pat_completeness auto
termination
  by (relation "measure (\<lambda>(s1, s2, ub, y, row). Suc (length s1) - y)") auto

definition edit_distance_bound :: "int \<Rightarrow> string \<Rightarrow> string \<Rightarrow> int \<Rightarrow> int" where
  "edit_distance_bound r0 s1 s2 upper_bound =
     outer_loop_bound s1 s2 upper_bound 1 (init_row r0 (length s2))"

declare inner_loop.simps [simp del] outer_loop.simps [simp del]
declare inner_loop_bound.simps [simp del] outer_loop_bound.simps [simp del]

text \<open>
  The distance the comment above \<open>edit_distance\<close> names, written after the specification's
  words (insert, delete and substitute cost 1, a match costs 0): the reference the two
  loops are compared with.
\<close>

fun levenshtein :: "'a list \<Rightarrow> 'a list \<Rightarrow> nat" where
  "levenshtein [] t = length t"
| "levenshtein s [] = length s"
| "levenshtein (a # s) (b # t) =
     min (levenshtein s t + (if a = b then 0 else 1))
         (min (levenshtein (a # s) t) (levenshtein s (b # t)) + 1)"

text \<open>The table cell for the first \<open>y\<close> bytes of \<open>s1\<close> and the first \<open>x\<close> bytes of \<open>s2\<close>.\<close>

definition cell :: "string \<Rightarrow> string \<Rightarrow> nat \<Rightarrow> nat \<Rightarrow> int" where
  "cell s1 s2 y x = int (levenshtein (take y s1) (take x s2))"

section \<open>The BK-tree (bktree.cc)\<close>

text \<open>
  \<open>std::map<int, unique_ptr<BkTree>>\<close> is a list of entries in ascending key order
  without repeated keys; an iterator is the suffix of the entries it points at, and
  \<open>end()\<close> is the empty suffix.

  The functions of the tree pass the argument \<open>r0\<close> on to every call of \<open>edit_distance\<close>:
  it is read only when both strings are empty.
\<close>

datatype BkTree = Node (value_of: string) (children: "(int \<times> BkTree) list")

type_synonym Edges = "(int \<times> BkTree) list"

text \<open>\<open>children.find(d)\<close>; \<open>None\<close> is \<open>children.end()\<close>.\<close>

definition find_edge :: "int \<Rightarrow> Edges \<Rightarrow> BkTree option" where
  "find_edge d cs = map_of cs d"

text \<open>\<open>children[d] = t\<close>: the entry is put at its place in key order, or replaced.\<close>

fun assign_edge :: "int \<Rightarrow> BkTree \<Rightarrow> Edges \<Rightarrow> Edges" where
  "assign_edge d t [] = [(d, t)]"
| "assign_edge d t ((k, c) # cs) =
     (if d < k then (d, t) # (k, c) # cs
      else if d = k then (d, t) # cs
      else (k, c) # assign_edge d t cs)"

definition lower_bound :: "int \<Rightarrow> Edges \<Rightarrow> Edges" where
  "lower_bound lo cs = dropWhile (\<lambda>(k, c). k < lo) cs"

definition upper_bound :: "int \<Rightarrow> Edges \<Rightarrow> Edges" where
  "upper_bound hi cs = dropWhile (\<lambda>(k, c). k \<le> hi) cs"

text \<open>
  The entries that \<open>for (; it != end; ++it)\<close> visits. Two iterators of one map are equal
  when they point at the same entry, that is when the suffixes have the same length.
  Incrementing \<open>it\<close> past \<open>children.end()\<close> is undefined in the source; the model stops
  there.
\<close>

fun walk :: "Edges \<Rightarrow> Edges \<Rightarrow> Edges" where
  "walk [] en = []"
| "walk (e # it) en = (if length (e # it) = length en then [] else e # walk it en)"

text \<open>
  \<open>d - n\<close> and \<open>d + n\<close> are sums of two \<open>int\<close>s. Overflow of a signed sum is undefined in
  C++; the model takes the two's-complement result of the 32-bit machine addition.
\<close>

definition int32 :: "int \<Rightarrow> int" where
  "int32 i = (i + 2 ^ 31) mod 2 ^ 32 - 2 ^ 31"

lemma size_edge_less: "(k, c) \<in> set cs \<Longrightarrow> size c < Suc (size_list (size_prod (\<lambda>_. 0) size) cs)"
  by (induction cs) auto

lemma walk_subset: "set (walk it en) \<subseteq> set it"
  by (induction it en rule: walk.induct) auto

function BkTree_insert :: "int \<Rightarrow> string \<Rightarrow> BkTree \<Rightarrow> BkTree" where
  "BkTree_insert r0 word (Node v cs) =
     (let d = edit_distance r0 v word in
      case find_edge d cs of
        None \<Rightarrow> Node v (assign_edge d (Node word []) cs)
      | Some c \<Rightarrow> Node v (assign_edge d (BkTree_insert r0 word c) cs))"
  by pat_completeness auto
termination
proof (relation "measure (\<lambda>(r0, word, t). size t)")
  show "wf (measure (\<lambda>(r0, word, t). size t))" by simp
next
  fix r0 :: int and word v :: string and cs :: Edges and d c
  assume "d = edit_distance r0 v word" "find_edge d cs = Some c"
  then have "(d, c) \<in> set cs" by (simp add: find_edge_def map_of_SomeD)
  then show "((r0, word, c), (r0, word, Node v cs)) \<in> measure (\<lambda>(r0, word, t). size t)"
    using size_edge_less [of d c cs] by simp
qed

text \<open>
  \<open>query\<close> writes to two places: standard output (here the lines printed, in order) and
  the counter behind \<open>count\<close>.
\<close>

record query_state =
  out :: "string list"
  count :: int

function BkTree_query :: "int \<Rightarrow> string \<Rightarrow> int \<Rightarrow> BkTree \<Rightarrow> query_state \<Rightarrow> query_state" where
  "BkTree_query r0 word n (Node v cs) st =
     (let st1 = st\<lparr>count := count st + 1\<rparr>;
          d = edit_distance r0 v word;
          st2 = (if d \<le> n then st1\<lparr>out := out st1 @ [v]\<rparr> else st1)
      in fold (\<lambda>e. BkTree_query r0 word n (snd e))
           (walk (lower_bound (int32 (d - n)) cs) (upper_bound (int32 (d + n)) cs)) st2)"
  by pat_completeness auto
termination
proof (relation "measure (\<lambda>(r0, word, n, t, st). size t)")
  show "wf (measure (\<lambda>(r0, word, n, t, st). size t))" by simp
next
  fix r0 n :: int and word v :: string and cs :: Edges and st st1 st2 :: query_state
    and d and e :: "int \<times> BkTree" and s :: query_state
  assume "e \<in> set (walk (lower_bound (int32 (d - n)) cs) (upper_bound (int32 (d + n)) cs))"
  then have "e \<in> set (lower_bound (int32 (d - n)) cs)"
    using walk_subset by blast
  then have "e \<in> set cs"
    by (auto simp: lower_bound_def dest: set_dropWhileD)
  then have "(fst e, snd e) \<in> set cs" by simp
  then show "((r0, word, n, snd e, s), (r0, word, n, Node v cs, st))
      \<in> measure (\<lambda>(r0, word, n, t, st). size t)"
    using size_edge_less [of "fst e" "snd e" cs] by simp
qed

text \<open>
  \<open>main\<close>: the index is built from the first word and the others are inserted in order;
  an empty word list ends the program with \<open>EXIT_FAILURE\<close> (\<open>None\<close>).
\<close>

fun build_index :: "int \<Rightarrow> string list \<Rightarrow> BkTree option" where
  "build_index r0 [] = None"
| "build_index r0 (w # ws) = Some (fold (BkTree_insert r0) ws (Node w []))"

definition indexed_query :: "int \<Rightarrow> string list \<Rightarrow> string \<Rightarrow> int \<Rightarrow> string list option" where
  "indexed_query r0 words query n =
     (case build_index r0 words of
        None \<Rightarrow> None
      | Some index \<Rightarrow> Some (out (BkTree_query r0 query n index \<lparr>out = [], count = 0\<rparr>)))"

text \<open>The brute-force branch of \<open>main\<close>: the words it prints, in order.\<close>

definition brute_force_query :: "int \<Rightarrow> string list \<Rightarrow> string \<Rightarrow> int \<Rightarrow> string list option" where
  "brute_force_query r0 words query n =
     (if words = [] then None
      else Some (filter (\<lambda>word. edit_distance_bound r0 word query n \<le> n) words))"

text \<open>The words a tree holds, and the two invariants of the index.\<close>

function words_of :: "BkTree \<Rightarrow> string set" where
  "words_of (Node v cs) = insert v (\<Union>e \<in> set cs. words_of (snd e))"
  by pat_completeness auto
termination
proof (relation "measure size")
  show "wf (measure size)" by simp
next
  fix v :: string and cs :: Edges and e :: "int \<times> BkTree"
  assume "e \<in> set cs"
  then have "(fst e, snd e) \<in> set cs" by simp
  then show "(snd e, Node v cs) \<in> measure size"
    using size_edge_less [of "fst e" "snd e" cs] by simp
qed

function node_count :: "BkTree \<Rightarrow> nat" where
  "node_count (Node v cs) = Suc (sum_list (map (\<lambda>e. node_count (snd e)) cs))"
  by pat_completeness auto
termination
proof (relation "measure size")
  show "wf (measure size)" by simp
next
  fix v :: string and cs :: Edges and e :: "int \<times> BkTree"
  assume "e \<in> set cs"
  then have "(fst e, snd e) \<in> set cs" by simp
  then show "(snd e, Node v cs) \<in> measure size"
    using size_edge_less [of "fst e" "snd e" cs] by simp
qed

text \<open>
  The invariant of the specification: every edge is labelled with the distance, as
  \<open>edit_distance\<close> computes it, between the pivots at its two ends, and no label occurs
  twice below one node.
\<close>

function well_formed :: "int \<Rightarrow> BkTree \<Rightarrow> bool" where
  "well_formed r0 (Node v cs) =
     (distinct (map fst cs) \<and>
      (\<forall>e \<in> set cs. fst e = edit_distance r0 v (value_of (snd e)) \<and> well_formed r0 (snd e)))"
  by pat_completeness auto
termination
proof (relation "measure (\<lambda>(r0, t). size t)")
  show "wf (measure (\<lambda>(r0, t). size t))" by simp
next
  fix r0 :: int and v :: string and cs :: Edges and e :: "int \<times> BkTree"
  assume "e \<in> set cs"
  then have "(fst e, snd e) \<in> set cs" by simp
  then show "((r0, snd e), (r0, Node v cs)) \<in> measure (\<lambda>(r0, t). size t)"
    using size_edge_less [of "fst e" "snd e" cs] by simp
qed

text \<open>
  What the range query rests on: the entries are in ascending key order, and every word
  below an edge is at the distance of the edge's label from the pivot above it.
\<close>

definition dist :: "string \<Rightarrow> string \<Rightarrow> int" where
  "dist s t = int (levenshtein s t)"

function bk_inv :: "BkTree \<Rightarrow> bool" where
  "bk_inv (Node v cs) =
     (sorted_wrt (<) (map fst cs) \<and>
      (\<forall>e \<in> set cs. (\<forall>w \<in> words_of (snd e). dist v w = fst e) \<and> bk_inv (snd e)))"
  by pat_completeness auto
termination
proof (relation "measure size")
  show "wf (measure size)" by simp
next
  fix v :: string and cs :: Edges and e :: "int \<times> BkTree"
  assume "e \<in> set cs"
  then have "(fst e, snd e) \<in> set cs" by simp
  then show "(snd e, Node v cs) \<in> measure size"
    using size_edge_less [of "fst e" "snd e" cs] by simp
qed

text \<open>The representation invariant of \<open>std::map\<close> at every node: ascending keys.\<close>

function ordered :: "BkTree \<Rightarrow> bool" where
  "ordered (Node v cs) = (sorted_wrt (<) (map fst cs) \<and> (\<forall>e \<in> set cs. ordered (snd e)))"
  by pat_completeness auto
termination
proof (relation "measure size")
  show "wf (measure size)" by simp
next
  fix v :: string and cs :: Edges and e :: "int \<times> BkTree"
  assume "e \<in> set cs"
  then have "(fst e, snd e) \<in> set cs" by simp
  then show "(snd e, Node v cs) \<in> measure size"
    using size_edge_less [of "fst e" "snd e" cs] by simp
qed

section \<open>Properties of the edit distance\<close>

lemma levenshtein_Nil2 [simp]: "levenshtein s [] = length s"
  by (cases s) simp_all

lemma levenshtein_sym: "levenshtein s t = levenshtein t s"
  by (induction s t rule: levenshtein.induct) (simp_all add: min.commute eq_commute)

lemma levenshtein_refl [simp]: "levenshtein s s = 0"
  by (induction s) simp_all

lemma levenshtein_Cons_left: "levenshtein (a # s) t \<le> Suc (levenshtein s t)"
  by (cases t) simp_all

lemma levenshtein_Cons_right: "levenshtein s (b # t) \<le> Suc (levenshtein s t)"
  by (cases s) simp_all

lemma levenshtein_length_diff: "length t \<le> length s + levenshtein s t"
  by (induction s t rule: levenshtein.induct) (auto simp: min_def)

lemma levenshtein_le_max: "levenshtein s t \<le> max (length s) (length t)"
  by (induction s t rule: levenshtein.induct) (auto simp: min_def)

lemma levenshtein_eq_0: "levenshtein s t = 0 \<Longrightarrow> s = t"
  by (induction s t rule: levenshtein.induct) (auto simp: min_def split: if_splits)

lemma levenshtein_triangle:
  "levenshtein a c \<le> levenshtein a b + levenshtein b c"
proof (induction "length a + length b + length c" arbitrary: a b c rule: less_induct)
  case less
  show ?case
  proof (cases a)
    case Nil
    then show ?thesis
      using levenshtein_length_diff [of c b] by simp
  next
    case A: (Cons x a')
    show ?thesis
    proof (cases c)
      case Nil
      then show ?thesis
        using levenshtein_length_diff [of a b] by (simp add: levenshtein_sym [of a b])
    next
      case C: (Cons z c')
      show ?thesis
      proof (cases b)
        case Nil
        then show ?thesis
          using levenshtein_le_max [of a c] by simp
      next
        case B: (Cons y b')
        have ih1: "levenshtein a' c \<le> levenshtein a' b + levenshtein b c"
          using less [of a' b c] A by simp
        have ih2: "levenshtein a c' \<le> levenshtein a b + levenshtein b c'"
          using less [of a b c'] C by simp
        have ih3: "levenshtein a' c' \<le> levenshtein a' b' + levenshtein b' c'"
          using less [of a' b' c'] A B C by simp
        have ih4: "levenshtein a c \<le> levenshtein a b' + levenshtein b' c"
          using less [of a b' c] B by simp
        have ac1: "levenshtein a c \<le> levenshtein a' c' + (if x = z then 0 else 1)"
          and ac2: "levenshtein a c \<le> levenshtein a c' + 1"
          and ac3: "levenshtein a c \<le> levenshtein a' c + 1"
          using A C by simp_all
        have ab: "levenshtein a b = levenshtein a' b' + (if x = y then 0 else 1)
            \<or> levenshtein a b = levenshtein a b' + 1
            \<or> levenshtein a b = levenshtein a' b + 1"
          using A B by (simp add: min_def)
        have bc: "levenshtein b c = levenshtein b' c' + (if y = z then 0 else 1)
            \<or> levenshtein b c = levenshtein b c' + 1
            \<or> levenshtein b c = levenshtein b' c + 1"
          using B C by (simp add: min_def)
        have l1: "levenshtein a b' \<le> Suc (levenshtein a' b')"
          using levenshtein_Cons_left [of x a' b'] A by simp
        have l2: "levenshtein b' c \<le> Suc (levenshtein b' c')"
          using levenshtein_Cons_right [of b' z c'] C by simp
        from ab bc show ?thesis
          using ih1 ih2 ih3 ih4 ac1 ac2 ac3 l1 l2
          by (auto split: if_splits)
      qed
    qed
  qed
qed

text \<open>
  The recurrence on the last bytes, which is the one the table follows: the distance
  does not depend on the end the strings are read from.
\<close>

lemma levenshtein_snoc_Nil:
  "levenshtein (s @ [a]) [b] =
     min (length s + (if a = b then 0 else 1)) (min (length s + 1) (levenshtein s [b]) + 1)"
proof (induction s)
  case Nil
  then show ?case by simp
next
  case (Cons x s)
  then show ?case by (cases s) (auto simp: min_def)
qed

lemma levenshtein_Nil_snoc:
  "levenshtein [a] (t @ [b]) =
     min (length t + (if a = b then 0 else 1)) (min (levenshtein [a] t) (length t + 1) + 1)"
  using levenshtein_snoc_Nil [of t b a] by (simp add: levenshtein_sym [of "[a]"] min.commute eq_commute)

lemma min_nine:
  fixes A B C D E F G H I e f :: nat
  shows "min (min (A + e) (min B C + 1) + f)
            (min (min (D + e) (min E F + 1)) (min (G + e) (min H I + 1)) + 1)
      = min (min (A + f) (min D G + 1) + e)
            (min (min (B + f) (min E H + 1)) (min (C + f) (min F I + 1)) + 1)"
proof -
  have "min (min (A + e + f) (min (B + 1 + f) (C + 1 + f)))
            (min (min (D + e + 1) (min (E + 1 + 1) (F + 1 + 1)))
                 (min (G + e + 1) (min (H + 1 + 1) (I + 1 + 1))))
      = min (min (A + f + e) (min (D + 1 + e) (G + 1 + e)))
            (min (min (B + f + 1) (min (E + 1 + 1) (H + 1 + 1)))
                 (min (C + f + 1) (min (F + 1 + 1) (I + 1 + 1))))"
    by (rule antisym)
      (simp_all only: min.bounded_iff min_le_iff_disj add.assoc add.commute add.left_commute
        le_refl simp_thms)
  then show ?thesis by (simp only: min_add_distrib_left)
qed

lemma levenshtein_snoc:
  "levenshtein (s @ [a]) (t @ [b]) =
     min (levenshtein s t + (if a = b then 0 else 1))
         (min (levenshtein (s @ [a]) t) (levenshtein s (t @ [b])) + 1)"
proof (induction s t rule: levenshtein.induct)
  case (1 t)
  show ?case using levenshtein_Nil_snoc [of a t b] by simp
next
  case (2 x s)
  show ?case using levenshtein_snoc_Nil [of "x # s" a b] by simp
next
  case (3 x s y t)
  define e where "e = (if a = b then 0 else 1 :: nat)"
  define f where "f = (if x = y then 0 else 1 :: nat)"
  define A where "A = levenshtein s t"
  define B where "B = levenshtein (s @ [a]) t"
  define C where "C = levenshtein s (t @ [b])"
  define D where "D = levenshtein (x # s) t"
  define E where "E = levenshtein (x # s @ [a]) t"
  define F where "F = levenshtein (x # s) (t @ [b])"
  define G where "G = levenshtein s (y # t)"
  define H where "H = levenshtein (s @ [a]) (y # t)"
  define I where "I = levenshtein s (y # t @ [b])"
  have ih1: "levenshtein (s @ [a]) (t @ [b]) = min (A + e) (min B C + 1)"
    using 3(1) by (simp only: A_def B_def C_def e_def)
  have ih2: "levenshtein (x # s @ [a]) (t @ [b]) = min (D + e) (min E F + 1)"
    using 3(2) by (simp only: D_def E_def F_def e_def append_Cons)
  have ih3: "levenshtein (s @ [a]) (y # t @ [b]) = min (G + e) (min H I + 1)"
    using 3(3) by (simp only: G_def H_def I_def e_def append_Cons)
  have lhs: "levenshtein ((x # s) @ [a]) ((y # t) @ [b])
      = min (min (A + e) (min B C + 1) + f)
            (min (min (D + e) (min E F + 1)) (min (G + e) (min H I + 1)) + 1)"
    by (simp only: append_Cons levenshtein.simps ih1 ih2 ih3 f_def)
  have r1: "levenshtein (x # s) (y # t) = min (A + f) (min D G + 1)"
    by (simp only: levenshtein.simps A_def D_def G_def f_def)
  have r2: "levenshtein ((x # s) @ [a]) (y # t) = min (B + f) (min E H + 1)"
    by (simp only: append_Cons levenshtein.simps B_def E_def H_def f_def)
  have r3: "levenshtein (x # s) ((y # t) @ [b]) = min (C + f) (min F I + 1)"
    by (simp only: append_Cons levenshtein.simps C_def F_def I_def f_def)
  have rhs: "min (levenshtein (x # s) (y # t) + e)
         (min (levenshtein ((x # s) @ [a]) (y # t)) (levenshtein (x # s) ((y # t) @ [b])) + 1)
      = min (min (A + f) (min D G + 1) + e)
            (min (min (B + f) (min E H + 1)) (min (C + f) (min F I + 1)) + 1)"
    unfolding r1 r2 r3 by (rule refl)
  have "levenshtein ((x # s) @ [a]) ((y # t) @ [b])
      = min (levenshtein (x # s) (y # t) + e)
         (min (levenshtein ((x # s) @ [a]) (y # t)) (levenshtein (x # s) ((y # t) @ [b])) + 1)"
    unfolding lhs rhs by (rule min_nine)
  then show ?case by (simp only: e_def)
qed

lemma levenshtein_rev: "levenshtein (rev s) (rev t) = levenshtein s t"
proof (induction s t rule: levenshtein.induct)
  case (1 t)
  show ?case by simp
next
  case (2 x s)
  show ?case by simp
next
  case (3 x s y t)
  have "levenshtein (rev (x # s)) (rev (y # t)) = levenshtein (rev s @ [x]) (rev t @ [y])"
    by simp
  also have "\<dots> = min (levenshtein (rev s) (rev t) + (if x = y then 0 else 1))
      (min (levenshtein (rev s @ [x]) (rev t)) (levenshtein (rev s) (rev t @ [y])) + 1)"
    by (rule levenshtein_snoc)
  also have "levenshtein (rev s) (rev t) = levenshtein s t" by (rule 3(1))
  also have "levenshtein (rev s @ [x]) (rev t) = levenshtein (x # s) t"
    using 3(2) by simp
  also have "levenshtein (rev s) (rev t @ [y]) = levenshtein s (y # t)"
    using 3(3) by simp
  also have "min (levenshtein s t + (if x = y then 0 else 1))
      (min (levenshtein (x # s) t) (levenshtein s (y # t)) + 1) = levenshtein (x # s) (y # t)"
    by (simp only: levenshtein.simps)
  finally show ?case .
qed

subsection \<open>The table\<close>

lemma cell_0_left [simp]: "x \<le> length s2 \<Longrightarrow> cell s1 s2 0 x = int x"
  by (simp add: cell_def)

lemma cell_0_right [simp]: "y \<le> length s1 \<Longrightarrow> cell s1 s2 y 0 = int y"
  by (simp add: cell_def)

lemma cell_Suc:
  assumes "y < length s1" "x < length s2"
  shows "cell s1 s2 (Suc y) (Suc x) =
     min (cell s1 s2 y x + (if s1 ! y = s2 ! x then 0 else 1))
         (min (cell s1 s2 (Suc y) x) (cell s1 s2 y (Suc x)) + 1)"
proof -
  define A where "A = levenshtein (take y s1) (take x s2)"
  define B where "B = levenshtein (take y s1 @ [s1 ! y]) (take x s2)"
  define C where "C = levenshtein (take y s1) (take x s2 @ [s2 ! x])"
  have "levenshtein (take (Suc y) s1) (take (Suc x) s2)
      = min (A + (if s1 ! y = s2 ! x then 0 else 1)) (min B C + 1)"
    using assms by (simp only: take_Suc_conv_app_nth levenshtein_snoc A_def B_def C_def)
  moreover have "cell s1 s2 y x = int A" "cell s1 s2 (Suc y) x = int B" "cell s1 s2 y (Suc x) = int C"
    using assms by (simp_all only: cell_def take_Suc_conv_app_nth A_def B_def C_def)
  ultimately show ?thesis by (simp add: cell_def min_def)
qed

lemma inner_loop_length [simp]: "length (inner_loop c s2 x previous row) = length row"
  by (induction c s2 x previous row rule: inner_loop.induct)
     (subst inner_loop.simps, simp add: Let_def)

lemma inner_loop_cells:
  assumes "y < length s1" "length row = Suc (length s2)" "1 \<le> x"
    and "\<forall>j<x. row ! j = cell s1 s2 (Suc y) j"
    and "\<forall>j. x \<le> j \<and> j \<le> length s2 \<longrightarrow> row ! j = cell s1 s2 y j"
    and "previous = cell s1 s2 y (x - 1)"
    and "j \<le> length s2"
  shows "inner_loop (s1 ! y) s2 x previous row ! j = cell s1 s2 (Suc y) j"
  using assms
proof (induction "s1 ! y" s2 x previous row rule: inner_loop.induct)
  case (1 s2 x previous row)
  show ?case
  proof (cases "x \<le> length s2")
    case False
    then have "j < x" using "1.prems" by simp
    then show ?thesis
      using False "1.prems" by (subst inner_loop.simps) simp
  next
    case True
    obtain x' where x': "x = Suc x'" using "1.prems"(3) by (cases x) auto
    let ?v = "min (previous + (if s1 ! y = s2 ! (x - 1) then 0 else 1))
                  (min (row ! (x - 1)) (row ! x) + 1)"
    have v: "?v = cell s1 s2 (Suc y) x"
      using "1.prems" True x' by (simp add: cell_Suc)
    have "inner_loop (s1 ! y) s2 (x + 1) (row ! x) (row[x := ?v]) ! j = cell s1 s2 (Suc y) j"
    proof (rule "1.hyps" [OF True refl refl])
      show "y < length s1" by fact
      show "length (row[x := ?v]) = Suc (length s2)" using "1.prems" by simp
      show "1 \<le> x + 1" by simp
      have xlen: "x < length row" using "1.prems" True by simp
      show "\<forall>j<x + 1. row[x := ?v] ! j = cell s1 s2 (Suc y) j"
      proof (intro allI impI)
        fix i assume "i < x + 1"
        then consider "i < x" | "i = x" by linarith
        then show "row[x := ?v] ! i = cell s1 s2 (Suc y) i"
        proof cases
          case 1
          then show ?thesis using "1.prems"(4) by simp
        next
          case 2
          then show ?thesis using xlen v by simp
        qed
      qed
      show "\<forall>j. x + 1 \<le> j \<and> j \<le> length s2 \<longrightarrow> row[x := ?v] ! j = cell s1 s2 y j"
        using "1.prems" by (auto simp: nth_list_update)
      show "row ! x = cell s1 s2 y (x + 1 - 1)"
        using "1.prems" True by simp
      show "j \<le> length s2" by fact
    qed
    then show ?thesis
      using True by (subst inner_loop.simps) (simp add: Let_def)
  qed
qed

lemma outer_loop_cells:
  assumes "length row = Suc (length s2)" "1 \<le> y" "y \<le> Suc (length s1)"
    and "\<forall>j\<le>length s2. (1 \<le> j \<or> 1 < y) \<longrightarrow> row ! j = cell s1 s2 (y - 1) j"
    and "j \<le> length s2" "1 \<le> j \<or> s1 \<noteq> []"
  shows "outer_loop s1 s2 y row ! j = cell s1 s2 (length s1) j"
  using assms
proof (induction s1 s2 y row rule: outer_loop.induct)
  case (1 s1 s2 y row)
  show ?case
  proof (cases "y \<le> length s1")
    case False
    then have y: "y = Suc (length s1)" using "1.prems" by simp
    have "1 \<le> j \<or> 1 < y" using "1.prems"(6) y by (cases s1) auto
    then have "row ! j = cell s1 s2 (y - 1) j"
      using "1.prems"(4,5) by blast
    then show ?thesis
      using False y by (subst outer_loop.simps) simp
  next
    case True
    obtain y' where y': "y = Suc y'" using "1.prems"(2) by (cases y) auto
    let ?row = "inner_loop (s1 ! (y - 1)) s2 1 (int y - 1) (row[0 := int y])"
    have cells: "?row ! i = cell s1 s2 (Suc y') i" if "i \<le> length s2" for i
      unfolding y' diff_Suc_1
    proof (rule inner_loop_cells)
      show "y' < length s1" using True y' by simp
      show "length (row[0 := int (Suc y')]) = Suc (length s2)" using "1.prems" by simp
      show "1 \<le> (1::nat)" by simp
      show "\<forall>j<1. row[0 := int (Suc y')] ! j = cell s1 s2 (Suc y') j"
        using "1.prems"(1) True y' by simp
      show "\<forall>j. 1 \<le> j \<and> j \<le> length s2 \<longrightarrow> row[0 := int (Suc y')] ! j = cell s1 s2 y' j"
        using "1.prems"(4) y' by simp
      show "int (Suc y') - 1 = cell s1 s2 y' (1 - 1)"
        using True y' by simp
      show "i \<le> length s2" by fact
    qed
    have "outer_loop s1 s2 (y + 1) ?row ! j = cell s1 s2 (length s1) j"
    proof (rule "1.IH" [OF True])
      show "length ?row = Suc (length s2)" using "1.prems" by simp
      show "1 \<le> y + 1" by simp
      show "y + 1 \<le> Suc (length s1)" using True by simp
      show "\<forall>j\<le>length s2. (1 \<le> j \<or> 1 < y + 1) \<longrightarrow> ?row ! j = cell s1 s2 (y + 1 - 1) j"
        using cells y' by simp
      show "j \<le> length s2" by fact
      show "1 \<le> j \<or> s1 \<noteq> []" by fact
    qed
    then show ?thesis
      using True by (subst outer_loop.simps) simp
  qed
qed

lemma init_row_length [simp]: "length (init_row r0 n) = Suc n"
  by (simp add: init_row_def)

lemma init_row_nth: "1 \<le> j \<Longrightarrow> j \<le> n \<Longrightarrow> init_row r0 n ! j = int j"
  by (cases j) (simp_all add: init_row_def del: upt_Suc)

lemma edit_distance_levenshtein:
  assumes "s1 \<noteq> [] \<or> s2 \<noteq> []"
  shows "edit_distance r0 s1 s2 = int (levenshtein s1 s2)"
proof -
  have "outer_loop s1 s2 1 (init_row r0 (length s2)) ! length s2
      = cell s1 s2 (length s1) (length s2)"
  proof (rule outer_loop_cells)
    show "\<forall>j\<le>length s2. (1 \<le> j \<or> 1 < (1::nat)) \<longrightarrow>
        init_row r0 (length s2) ! j = cell s1 s2 (1 - 1) j"
      by (simp add: init_row_nth)
    show "1 \<le> length s2 \<or> s1 \<noteq> []" using assms by (cases s2) auto
  qed simp_all
  then show ?thesis by (simp add: edit_distance_def cell_def)
qed

lemma inner_loop_bound_fst:
  "fst (inner_loop_bound c s2 x previous row best) = inner_loop c s2 x previous row"
proof (induction c s2 x previous row best rule: inner_loop_bound.induct)
  case (1 c s2 x previous row best)
  show ?case
  proof (cases "x \<le> length s2")
    case True
    then show ?thesis
      using "1.IH" [OF True refl refl]
      by (subst inner_loop_bound.simps, subst inner_loop.simps) (simp add: Let_def)
  next
    case False
    then show ?thesis
      by (subst inner_loop_bound.simps, subst inner_loop.simps) simp
  qed
qed

lemma inner_loop_below: "j < x \<Longrightarrow> inner_loop c s2 x previous row ! j = row ! j"
proof (induction c s2 x previous row rule: inner_loop.induct)
  case (1 c s2 x previous row)
  show ?case
  proof (cases "x \<le> length s2")
    case True
    then show ?thesis
      using "1.IH" [OF True refl refl] "1.prems"
      by (subst inner_loop.simps) (simp add: Let_def)
  next
    case False
    then show ?thesis by (subst inner_loop.simps) simp
  qed
qed

text \<open>best_this_row is the least of its start value and the cells written.\<close>

lemma inner_loop_bound_snd:
  assumes "length row = Suc (length s2)" "1 \<le> x"
  shows "snd (inner_loop_bound c s2 x previous row best) \<le> best
    \<and> (\<forall>j. x \<le> j \<and> j \<le> length s2 \<longrightarrow>
          snd (inner_loop_bound c s2 x previous row best) \<le> inner_loop c s2 x previous row ! j)
    \<and> (snd (inner_loop_bound c s2 x previous row best) = best
        \<or> (\<exists>j. x \<le> j \<and> j \<le> length s2 \<and>
              snd (inner_loop_bound c s2 x previous row best) = inner_loop c s2 x previous row ! j))"
  using assms
proof (induction c s2 x previous row best rule: inner_loop_bound.induct)
  case (1 c s2 x previous row best)
  show ?case
  proof (cases "x \<le> length s2")
    case False
    then have "inner_loop_bound c s2 x previous row best = (row, best)"
      by (subst inner_loop_bound.simps) simp
    then show ?thesis using False by simp
  next
    case True
    define v where "v = min (previous + (if c = s2 ! (x - 1) then 0 else 1))
                  (min (row ! (x - 1)) (row ! x) + 1)"
    define row' where "row' = row[x := v]"
    define b where "b = min best (row' ! x)"
    define r where "r = snd (inner_loop_bound c s2 (x + 1) (row ! x) row' b)"
    define f where "f = inner_loop c s2 (x + 1) (row ! x) row'"
    have xlen: "x < length row" using True "1.prems" by simp
    have len': "length row' = Suc (length s2)" using "1.prems" by (simp add: row'_def)
    have ih: "r \<le> b \<and> (\<forall>j. x + 1 \<le> j \<and> j \<le> length s2 \<longrightarrow> r \<le> f ! j)
        \<and> (r = b \<or> (\<exists>j. x + 1 \<le> j \<and> j \<le> length s2 \<and> r = f ! j))"
      unfolding r_def f_def b_def row'_def v_def
      by (rule "1.IH" [OF True refl refl]) (use "1.prems" in simp_all)
    have unf1: "snd (inner_loop_bound c s2 x previous row best) = r"
      unfolding r_def b_def row'_def v_def
      using True by (subst inner_loop_bound.simps) (simp add: Let_def)
    have unf2: "inner_loop c s2 x previous row = f"
      unfolding f_def row'_def v_def
      using True by (subst inner_loop.simps) (simp add: Let_def)
    have fx: "f ! x = v"
      unfolding f_def using inner_loop_below [of x "x + 1" c s2 "row ! x" row'] xlen
      by (simp add: row'_def)
    have bx: "b = min best v" using xlen by (simp add: b_def row'_def)
    have rb: "r \<le> b" using ih by blast
    have a: "r \<le> best" using rb bx by simp
    have b: "r \<le> f ! j" if "x \<le> j \<and> j \<le> length s2" for j
    proof (cases "j = x")
      case True
      then show ?thesis using rb bx fx by simp
    next
      case False
      then have "x + 1 \<le> j \<and> j \<le> length s2" using that by simp
      then show ?thesis using ih by blast
    qed
    have c: "r = best \<or> (\<exists>j. x \<le> j \<and> j \<le> length s2 \<and> r = f ! j)"
    proof -
      from ih consider "r = b" | j where "x + 1 \<le> j" "j \<le> length s2" "r = f ! j"
        by blast
      then show ?thesis
      proof cases
        case 1
        then have "r = best \<or> r = f ! x" using bx fx by (simp add: min_def split: if_splits)
        then show ?thesis using True by blast
      next
        case 2
        then have "x \<le> j" by simp
        then show ?thesis using 2 by blast
      qed
    qed
    show ?thesis unfolding unf1 unf2
    proof (intro conjI allI impI)
      show "r \<le> best" by (rule a)
    next
      fix j assume "x \<le> j \<and> j \<le> length s2"
      then show "r \<le> f ! j" by (rule b)
    next
      show "r = best \<or> (\<exists>j. x \<le> j \<and> j \<le> length s2 \<and> r = f ! j)" by (rule c)
    qed
  qed
qed

lemma cell_row_step:
  assumes "y < length s1" "x \<le> length s2"
  shows "\<exists>x'\<le>length s2. cell s1 s2 y x' \<le> cell s1 s2 (Suc y) x"
  using assms(2)
proof (induction x)
  case 0
  have "cell s1 s2 y 0 \<le> cell s1 s2 (Suc y) 0" using assms(1) by simp
  then show ?case by blast
next
  case (Suc x)
  then have x: "x < length s2" by simp
  from Suc obtain x0 where x0: "x0 \<le> length s2" "cell s1 s2 y x0 \<le> cell s1 s2 (Suc y) x"
    by auto
  have "cell s1 s2 y x \<le> cell s1 s2 (Suc y) (Suc x)
      \<or> cell s1 s2 (Suc y) x \<le> cell s1 s2 (Suc y) (Suc x)
      \<or> cell s1 s2 y (Suc x) \<le> cell s1 s2 (Suc y) (Suc x)"
    using cell_Suc [OF assms(1) x] by (simp add: min_def split: if_splits)
  then show ?case
    using x0 x Suc.prems by (meson le_cases less_imp_le_nat order_trans)
qed

lemma cell_row_mono:
  assumes "y \<le> y'" "y' \<le> length s1" "x \<le> length s2"
  shows "\<exists>x'\<le>length s2. cell s1 s2 y x' \<le> cell s1 s2 y' x"
  using assms
proof (induction y' arbitrary: x)
  case 0
  then show ?case by auto
next
  case (Suc y')
  show ?case
  proof (cases "y = Suc y'")
    case True
    then show ?thesis using Suc.prems by auto
  next
    case False
    then have le: "y \<le> y'" using Suc.prems by simp
    obtain x1 where x1: "x1 \<le> length s2" "cell s1 s2 y' x1 \<le> cell s1 s2 (Suc y') x"
      using cell_row_step [of y' s1 x s2] Suc.prems by auto
    obtain x2 where x2: "x2 \<le> length s2" "cell s1 s2 y x2 \<le> cell s1 s2 y' x1"
      using Suc.IH [OF le _ x1(1)] Suc.prems by auto
    show ?thesis using x1 x2 by (meson order_trans)
  qed
qed

lemma outer_loop_bound_result:
  assumes "length row = Suc (length s2)" "1 \<le> y" "y \<le> Suc (length s1)"
    and "\<forall>j\<le>length s2. (1 \<le> j \<or> 1 < y) \<longrightarrow> row ! j = cell s1 s2 (y - 1) j"
    and "s1 \<noteq> [] \<or> s2 \<noteq> []"
  shows "(cell s1 s2 (length s1) (length s2) \<le> ub \<longrightarrow>
            outer_loop_bound s1 s2 ub y row = cell s1 s2 (length s1) (length s2))
       \<and> (ub < cell s1 s2 (length s1) (length s2) \<longrightarrow> ub < outer_loop_bound s1 s2 ub y row)"
  using assms
proof (induction s1 s2 ub y row rule: outer_loop_bound.induct)
  case (1 s1 s2 ub y row)
  define d where "d = cell s1 s2 (length s1) (length s2)"
  show ?case
  proof (cases "y \<le> length s1")
    case False
    then have y: "y = Suc (length s1)" using "1.prems" by simp
    have "1 \<le> length s2 \<or> 1 < y" using "1.prems"(5) y by (cases s1; cases s2) auto
    then have "row ! length s2 = cell s1 s2 (y - 1) (length s2)"
      using "1.prems"(4) by blast
    moreover have "outer_loop_bound s1 s2 ub y row = row ! length s2"
      using False by (subst outer_loop_bound.simps) simp
    ultimately show ?thesis using y by simp
  next
    case True
    obtain y' where y': "y = Suc y'" using "1.prems"(2) by (cases y) auto
    define row0 where "row0 = row[0 := int y]"
    define res where "res = inner_loop_bound (s1 ! (y - 1)) s2 1 (int y - 1) row0 (int y)"
    define row' where "row' = fst res"
    define best where "best = snd res"
    have res: "res = (row', best)" by (simp add: row'_def best_def)
    have len0: "length row0 = Suc (length s2)" using "1.prems" by (simp add: row0_def)
    have row': "row' = inner_loop (s1 ! (y - 1)) s2 1 (int y - 1) row0"
      by (simp add: row'_def res_def inner_loop_bound_fst)
    have cells: "row' ! i = cell s1 s2 y i" if "i \<le> length s2" for i
      unfolding row' y' diff_Suc_1
    proof (rule inner_loop_cells)
      show "y' < length s1" using True y' by simp
      show "length row0 = Suc (length s2)" by fact
      show "1 \<le> (1::nat)" by simp
      show "\<forall>j<1. row0 ! j = cell s1 s2 (Suc y') j"
        using "1.prems"(1) True y' by (simp add: row0_def)
      show "\<forall>j. 1 \<le> j \<and> j \<le> length s2 \<longrightarrow> row0 ! j = cell s1 s2 y' j"
        using "1.prems"(4) y' by (simp add: row0_def)
      show "int (Suc y') - 1 = cell s1 s2 y' (1 - 1)"
        using True y' by simp
      show "i \<le> length s2" by fact
    qed
    have len': "length row' = Suc (length s2)" using len0 by (simp add: row')
    have best: "best \<le> int y \<and> (\<forall>j. 1 \<le> j \<and> j \<le> length s2 \<longrightarrow> best \<le> row' ! j)
        \<and> (best = int y \<or> (\<exists>j. 1 \<le> j \<and> j \<le> length s2 \<and> best = row' ! j))"
      unfolding best_def row' res_def
      by (rule inner_loop_bound_snd) (use len0 in simp_all)
    have c0: "cell s1 s2 y 0 = int y" using True by simp
    have best_le: "best \<le> cell s1 s2 y i" if "i \<le> length s2" for i
    proof (cases i)
      case 0
      then show ?thesis using best c0 by simp
    next
      case (Suc i')
      then have "1 \<le> i \<and> i \<le> length s2" using that by simp
      then have "best \<le> row' ! i" using best by blast
      then show ?thesis using cells [OF that] by simp
    qed
    have best_is: "\<exists>i\<le>length s2. best = cell s1 s2 y i"
    proof -
      from best consider "best = int y" | j where "1 \<le> j" "j \<le> length s2" "best = row' ! j"
        by blast
      then show ?thesis
      proof cases
        case 1
        then show ?thesis using c0 by (metis le0)
      next
        case 2
        then show ?thesis using cells by metis
      qed
    qed
    have unf: "outer_loop_bound s1 s2 ub y row =
        (if best > ub then ub + 1 else outer_loop_bound s1 s2 ub (y + 1) row')"
    proof -
      have res': "inner_loop_bound (s1 ! (y - 1)) s2 1 (int y - 1) (row[0 := int y]) (int y)
          = (row', best)"
        using res by (simp add: res_def row0_def)
      show ?thesis
        by (subst outer_loop_bound.simps) (simp only: res' True if_True split_conv)
    qed
    show ?thesis
    proof (cases "best > ub")
      case gt: True
      obtain x' where x': "x' \<le> length s2" "cell s1 s2 y x' \<le> cell s1 s2 (length s1) (length s2)"
        using cell_row_mono [OF True le_refl le_refl, of s2] by blast
      have "ub < cell s1 s2 (length s1) (length s2)"
        using gt best_le [OF x'(1)] x'(2) by linarith
      then show ?thesis using unf gt by simp
    next
      case le: False
      have "(cell s1 s2 (length s1) (length s2) \<le> ub \<longrightarrow>
            outer_loop_bound s1 s2 ub (y + 1) row' = cell s1 s2 (length s1) (length s2))
       \<and> (ub < cell s1 s2 (length s1) (length s2) \<longrightarrow> ub < outer_loop_bound s1 s2 ub (y + 1) row')"
      proof (rule "1.IH" [OF True _ le])
        show "(row', best) =
            inner_loop_bound (s1 ! (y - 1)) s2 1 (int y - 1) (row[0 := int y]) (int y)"
          using res by (simp add: res_def row0_def)
        show "length row' = Suc (length s2)" by fact
        show "1 \<le> y + 1" by simp
        show "y + 1 \<le> Suc (length s1)" using True by simp
        show "\<forall>j\<le>length s2. (1 \<le> j \<or> 1 < y + 1) \<longrightarrow> row' ! j = cell s1 s2 (y + 1 - 1) j"
          using cells by simp
        show "s1 \<noteq> [] \<or> s2 \<noteq> []" by fact
      qed
      then show ?thesis using unf le by simp
    qed
  qed
qed

lemma edit_distance_bound_levenshtein:
  assumes "s1 \<noteq> [] \<or> s2 \<noteq> []"
  shows "(int (levenshtein s1 s2) \<le> k \<longrightarrow>
            edit_distance_bound r0 s1 s2 k = int (levenshtein s1 s2))
       \<and> (k < int (levenshtein s1 s2) \<longrightarrow> k < edit_distance_bound r0 s1 s2 k)"
proof -
  have "(cell s1 s2 (length s1) (length s2) \<le> k \<longrightarrow>
            outer_loop_bound s1 s2 k 1 (init_row r0 (length s2)) = cell s1 s2 (length s1) (length s2))
       \<and> (k < cell s1 s2 (length s1) (length s2) \<longrightarrow>
            k < outer_loop_bound s1 s2 k 1 (init_row r0 (length s2)))"
  proof (rule outer_loop_bound_result)
    show "\<forall>j\<le>length s2. (1 \<le> j \<or> 1 < (1::nat)) \<longrightarrow>
        init_row r0 (length s2) ! j = cell s1 s2 (1 - 1) j"
      by (simp add: init_row_nth)
  qed (use assms in simp_all)
  then show ?thesis by (simp add: edit_distance_bound_def cell_def)
qed

section \<open>Properties of the index\<close>

lemma dist_sym: "dist s t = dist t s"
  by (simp add: dist_def levenshtein_sym)

lemma dist_triangle: "dist a c \<le> dist a b + dist b c"
  using levenshtein_triangle [of a c b] by (simp add: dist_def)

lemma dist_nonneg [simp]: "0 \<le> dist s t"
  by (simp add: dist_def)

lemma dist_le_max: "dist s t \<le> int (max (length s) (length t))"
  using levenshtein_le_max [of s t] by (simp add: dist_def)

lemma edit_distance_dist: "s1 \<noteq> [] \<or> s2 \<noteq> [] \<Longrightarrow> edit_distance r0 s1 s2 = dist s1 s2"
  by (simp add: dist_def edit_distance_levenshtein)

lemma int32_id: "- (2 ^ 31) \<le> i \<Longrightarrow> i < 2 ^ 31 \<Longrightarrow> int32 i = i"
  by (simp add: int32_def)

subsection \<open>The ordered map\<close>

lemma assign_edge_keys:
  "set (map fst (assign_edge d t cs)) = insert d (set (map fst cs))"
  by (induction d t cs rule: assign_edge.induct) auto

lemma assign_edge_sorted:
  "sorted_wrt (<) (map fst cs) \<Longrightarrow> sorted_wrt (<) (map fst (assign_edge d t cs))"
proof (induction d t cs rule: assign_edge.induct)
  case (1 d t)
  then show ?case by simp
next
  case (2 d t k c cs)
  have "\<forall>x \<in> set (map fst (assign_edge d t cs)). k < x" if "k < d"
    using that 2(2) by (auto simp only: assign_edge_keys sorted_wrt.simps list.simps fst_conv)
  then show ?case using 2 by (auto simp del: set_map)
qed

lemma assign_edge_set:
  "sorted_wrt (<) (map fst cs) \<Longrightarrow>
   set (assign_edge d t cs) = insert (d, t) {e \<in> set cs. fst e \<noteq> d}"
  by (induction d t cs rule: assign_edge.induct) (auto 0 3)

lemma find_edge_None: "find_edge d cs = None \<longleftrightarrow> d \<notin> fst ` set cs"
  by (simp add: find_edge_def map_of_eq_None_iff)

lemma find_edge_Some:
  "sorted_wrt (<) (map fst cs) \<Longrightarrow> find_edge d cs = Some c \<longleftrightarrow> (d, c) \<in> set cs"
proof -
  assume "sorted_wrt (<) (map fst cs)"
  then have "distinct (map fst cs)" by (simp add: strict_sorted_iff)
  then show ?thesis by (simp add: find_edge_def)
qed

lemma walk_filter:
  assumes "sorted_wrt (<) (map fst cs)" "lo \<le> hi"
  shows "walk (lower_bound lo cs) (upper_bound hi cs) = filter (\<lambda>e. lo \<le> fst e \<and> fst e \<le> hi) cs"
  using assms(1)
proof (induction cs)
  case Nil
  then show ?case by (simp add: lower_bound_def upper_bound_def)
next
  case (Cons e cs)
  obtain k c where e: "e = (k, c)" by (cases e)
  have sorted: "sorted_wrt (<) (map fst cs)" and above: "\<forall>x \<in> set cs. k < fst x"
    using Cons.prems e by auto
  have ih: "walk (lower_bound lo cs) (upper_bound hi cs)
      = filter (\<lambda>e. lo \<le> fst e \<and> fst e \<le> hi) cs"
    using Cons.IH sorted by simp
  consider "k < lo" | "lo \<le> k" "k \<le> hi" | "hi < k" by linarith
  then show ?case
  proof cases
    case 1
    then show ?thesis using ih assms(2) e by (simp add: lower_bound_def upper_bound_def)
  next
    case 2
    have lb: "lower_bound lo cs = cs"
      using above 2 by (cases cs) (auto simp: lower_bound_def)
    have "length (upper_bound hi cs) \<le> length cs"
      by (simp add: upper_bound_def length_dropWhile_le)
    then show ?thesis
      using 2 e ih lb by (simp add: lower_bound_def upper_bound_def)
  next
    case 3
    have "filter (\<lambda>e. lo \<le> fst e \<and> fst e \<le> hi) cs = []"
      using above 3 by (auto simp: filter_empty_conv)
    then show ?thesis
      using 3 e assms(2) by (simp add: lower_bound_def upper_bound_def)
  qed
qed

subsection \<open>Insertion\<close>

lemma words_of_leaf [simp]: "words_of (Node w []) = {w}"
  by simp

lemma bk_inv_leaf [simp]: "bk_inv (Node w [])"
  by simp

lemma insert_inv:
  assumes "bk_inv t" "word \<noteq> [] \<or> [] \<notin> words_of t"
  shows "bk_inv (BkTree_insert r0 word t)
       \<and> words_of (BkTree_insert r0 word t) = insert word (words_of t)"
  using assms
proof (induction r0 word t rule: BkTree_insert.induct)
  case (1 r0 word v cs)
  define d where "d = edit_distance r0 v word"
  have sorted: "sorted_wrt (<) (map fst cs)"
    and below: "\<And>e. e \<in> set cs \<Longrightarrow> (\<forall>w \<in> words_of (snd e). dist v w = fst e) \<and> bk_inv (snd e)"
    using "1.prems"(1) by auto
  have "v \<noteq> [] \<or> word \<noteq> []" using "1.prems"(2) by auto
  then have d: "d = dist v word" by (simp add: d_def edit_distance_dist)
  show ?case
  proof (cases "find_edge d cs")
    case None
    define cs' where "cs' = assign_edge d (Node word []) cs"
    have unf: "BkTree_insert r0 word (Node v cs) = Node v cs'"
      using None by (simp add: d_def [symmetric] cs'_def)
    have "d \<notin> fst ` set cs" using None by (simp add: find_edge_None)
    then have "{e \<in> set cs. fst e \<noteq> d} = set cs" by auto
    then have set': "set cs' = insert (d, Node word []) (set cs)"
      using assign_edge_set [OF sorted, of d "Node word []"] by (simp add: cs'_def)
    have sorted': "sorted_wrt (<) (map fst cs')"
      using assign_edge_sorted [OF sorted] by (simp add: cs'_def)
    have "(\<forall>w \<in> words_of (snd e). dist v w = fst e) \<and> bk_inv (snd e)" if "e \<in> set cs'" for e
    proof -
      from that consider "e = (d, Node word [])" | "e \<in> set cs" using set' by auto
      then show ?thesis
      proof cases
        case 1
        then show ?thesis using d by simp
      next
        case 2
        then show ?thesis by (rule below)
      qed
    qed
    then have "bk_inv (Node v cs')"
      using sorted' by simp
    moreover have "words_of (Node v cs') = insert word (words_of (Node v cs))"
      using set' by (simp add: insert_commute)
    ultimately show ?thesis using unf by simp
  next
    case (Some c)
    define c' where "c' = BkTree_insert r0 word c"
    define cs' where "cs' = assign_edge d c' cs"
    have unf: "BkTree_insert r0 word (Node v cs) = Node v cs'"
      using Some by (simp add: d_def [symmetric] cs'_def c'_def)
    have mem: "(d, c) \<in> set cs" using Some sorted by (simp add: find_edge_Some)
    have "distinct (map fst cs)" using sorted by (simp add: strict_sorted_iff)
    then have "inj_on fst (set cs)" by (simp add: distinct_map)
    then have uniq: "e = (d, c)" if "e \<in> set cs" "fst e = d" for e
      using inj_onD [of fst "set cs" e "(d, c)"] that mem by simp
    have others: "{e \<in> set cs. fst e \<noteq> d} = set cs - {(d, c)}"
    proof (intro set_eqI iffI)
      fix e assume "e \<in> {e \<in> set cs. fst e \<noteq> d}"
      then show "e \<in> set cs - {(d, c)}" by auto
    next
      fix e assume e: "e \<in> set cs - {(d, c)}"
      then have "fst e \<noteq> d" using uniq [of e] by blast
      then show "e \<in> {e \<in> set cs. fst e \<noteq> d}" using e by simp
    qed
    have set': "set cs' = insert (d, c') (set cs - {(d, c)})"
      using assign_edge_set [OF sorted, of d c'] others by (simp add: cs'_def)
    have sorted': "sorted_wrt (<) (map fst cs')"
      using assign_edge_sorted [OF sorted] by (simp add: cs'_def)
    have c: "(\<forall>w \<in> words_of c. dist v w = d) \<and> bk_inv c"
      using below [OF mem] by simp
    have "word \<noteq> [] \<or> [] \<notin> words_of c"
      using "1.prems"(2) mem by force
    then have ih: "bk_inv c' \<and> words_of c' = insert word (words_of c)"
      unfolding c'_def using "1.IH" [OF d_def Some] c by simp
    have "(\<forall>w \<in> words_of (snd e). dist v w = fst e) \<and> bk_inv (snd e)" if "e \<in> set cs'" for e
    proof -
      from that consider "e = (d, c')" | "e \<in> set cs" using set' by auto
      then show ?thesis
      proof cases
        case 1
        then show ?thesis using ih c d by simp
      next
        case 2
        then show ?thesis by (rule below)
      qed
    qed
    then have "bk_inv (Node v cs')"
      using sorted' by simp
    moreover have "words_of (Node v cs') = insert word (words_of (Node v cs))"
    proof -
      have "(\<Union>e \<in> set cs'. words_of (snd e))
          = words_of c' \<union> (\<Union>e \<in> set cs - {(d, c)}. words_of (snd e))"
        using set' by simp
      also have "\<dots> = insert word (words_of c \<union> (\<Union>e \<in> set cs - {(d, c)}. words_of (snd e)))"
        using ih by simp
      also have "words_of c \<union> (\<Union>e \<in> set cs - {(d, c)}. words_of (snd e))
          = (\<Union>e \<in> set cs. words_of (snd e))"
        using mem by force
      finally show ?thesis by (simp add: insert_commute)
    qed
    ultimately show ?thesis using unf by simp
  qed
qed

lemma fold_insert_inv:
  assumes "bk_inv t" "[] \<notin> set ws \<or> ([] \<notin> words_of t \<and> distinct ws)"
  shows "bk_inv (fold (BkTree_insert r0) ws t)
       \<and> words_of (fold (BkTree_insert r0) ws t) = words_of t \<union> set ws"
  using assms
proof (induction ws arbitrary: t)
  case Nil
  then show ?case by simp
next
  case (Cons w ws)
  have "w \<noteq> [] \<or> [] \<notin> words_of t" using Cons.prems(2) by auto
  then have step: "bk_inv (BkTree_insert r0 w t)"
    "words_of (BkTree_insert r0 w t) = insert w (words_of t)"
    using insert_inv [OF Cons.prems(1), of w r0] by simp_all
  have "[] \<notin> set ws \<or> ([] \<notin> words_of (BkTree_insert r0 w t) \<and> distinct ws)"
    using Cons.prems(2) step(2) by auto
  then show ?case
    using Cons.IH [OF step(1)] step(2) by simp
qed

lemma build_index_inv:
  assumes "[] \<notin> set ws \<or> distinct (w # ws)"
  shows "\<exists>t. build_index r0 (w # ws) = Some t \<and> bk_inv t \<and> words_of t = set (w # ws)"
proof -
  have "[] \<notin> set ws \<or> ([] \<notin> words_of (Node w []) \<and> distinct ws)"
    using assms by auto
  then show ?thesis
    using fold_insert_inv [of "Node w []" ws r0] by simp
qed

subsection \<open>The range query\<close>

lemma fold_out_set:
  assumes "\<And>e s. e \<in> set es \<Longrightarrow> set (out (f e s)) = set (out s) \<union> A e"
  shows "set (out (fold f es st)) = set (out st) \<union> (\<Union>e \<in> set es. A e)"
  using assms
proof (induction es arbitrary: st)
  case Nil
  then show ?case by simp
next
  case (Cons e es)
  have "set (out (fold f es (f e st))) = set (out (f e st)) \<union> (\<Union>e \<in> set es. A e)"
    using Cons.IH Cons.prems by simp
  then show ?case using Cons.prems [of e st] by auto
qed

lemma within_window:
  assumes "dist v w = k" "dist w q \<le> n"
  shows "dist v q - n \<le> k \<and> k \<le> dist v q + n"
proof -
  have "dist v w \<le> dist v q + dist q w" by (rule dist_triangle)
  moreover have "dist v q \<le> dist v w + dist w q" by (rule dist_triangle)
  moreover have "dist q w = dist w q" by (rule dist_sym)
  ultimately show ?thesis using assms by linarith
qed

lemma query_out_set:
  assumes "bk_inv t" "q \<noteq> [] \<or> [] \<notin> words_of t" "0 \<le> n"
    and "\<forall>w \<in> words_of t. dist w q + n < 2 ^ 31"
  shows "set (out (BkTree_query r0 q n t st)) = set (out st) \<union> {w \<in> words_of t. dist w q \<le> n}"
  using assms
proof (induction r0 q n t st rule: BkTree_query.induct)
  case (1 r0 word n v cs st)
  define d where "d = edit_distance r0 v word"
  define st1 where "st1 = st\<lparr>count := count st + 1\<rparr>"
  define st2 where "st2 = (if d \<le> n then st1\<lparr>out := out st1 @ [v]\<rparr> else st1)"
  define visited where
    "visited = walk (lower_bound (int32 (d - n)) cs) (upper_bound (int32 (d + n)) cs)"
  define M where "M e = {w \<in> words_of (snd e). dist w word \<le> n}" for e :: "int \<times> BkTree"
  have sorted: "sorted_wrt (<) (map fst cs)"
    and below: "\<And>e. e \<in> set cs \<Longrightarrow> (\<forall>w \<in> words_of (snd e). dist v w = fst e) \<and> bk_inv (snd e)"
    using "1.prems"(1) by auto
  have "v \<noteq> [] \<or> word \<noteq> []" using "1.prems"(2) by auto
  then have d: "d = dist v word" by (simp add: d_def edit_distance_dist)
  have dn: "d + n < 2 ^ 31" using "1.prems"(4) d by simp
  have d0: "0 \<le> d" using d by simp
  have lo: "int32 (d - n) = d - n" using dn d0 "1.prems"(3) by (intro int32_id) simp_all
  have hi: "int32 (d + n) = d + n" using dn d0 "1.prems"(3) by (intro int32_id) simp_all
  have visited: "visited = filter (\<lambda>e. d - n \<le> fst e \<and> fst e \<le> d + n) cs"
    unfolding visited_def lo hi using "1.prems"(3) by (intro walk_filter [OF sorted]) simp
  have unf: "BkTree_query r0 word n (Node v cs) st
      = fold (\<lambda>e. BkTree_query r0 word n (snd e)) visited st2"
    by (simp add: Let_def visited_def st2_def st1_def d_def)
  have ih: "set (out (BkTree_query r0 word n (snd e) s)) = set (out s) \<union> M e"
    if "e \<in> set visited" for e s
  proof -
    have e: "e \<in> set cs" using that visited by simp
    have "set (out (BkTree_query r0 word n (snd e) s))
        = set (out s) \<union> {w \<in> words_of (snd e). dist w word \<le> n}"
    proof (rule "1.IH" [OF st1_def d_def st2_def])
      show "e \<in> set (walk (lower_bound (int32 (d - n)) cs) (upper_bound (int32 (d + n)) cs))"
        using that by (simp add: visited_def)
      show "bk_inv (snd e)" using below [OF e] by simp
      show "word \<noteq> [] \<or> [] \<notin> words_of (snd e)" using "1.prems"(2) e by auto
      show "0 \<le> n" by fact
      show "\<forall>w \<in> words_of (snd e). dist w word + n < 2 ^ 31" using "1.prems"(4) e by auto
    qed
    then show ?thesis by (simp add: M_def)
  qed
  have "set (out (fold (\<lambda>e. BkTree_query r0 word n (snd e)) visited st2))
      = set (out st2) \<union> (\<Union>e \<in> set visited. M e)"
    by (rule fold_out_set) (rule ih)
  moreover have "(\<Union>e \<in> set visited. M e) = (\<Union>e \<in> set cs. M e)"
  proof -
    have "M e = {}" if "e \<in> set cs" "e \<notin> set visited" for e
    proof (rule ccontr)
      assume "M e \<noteq> {}"
      then obtain w where w: "w \<in> words_of (snd e)" "dist w word \<le> n" by (auto simp: M_def)
      have "dist v w = fst e" using below [OF that(1)] w(1) by simp
      then have "d - n \<le> fst e \<and> fst e \<le> d + n"
        using within_window [of v w "fst e" word n] w(2) d by simp
      then show False using that visited by simp
    qed
    moreover have "set visited \<subseteq> set cs" using visited by auto
    ultimately show ?thesis by blast
  qed
  moreover have "set (out st2) = set (out st) \<union> (if dist v word \<le> n then {v} else {})"
    by (simp add: st2_def st1_def d)
  moreover have "{w \<in> words_of (Node v cs). dist w word \<le> n}
      = (if dist v word \<le> n then {v} else {}) \<union> (\<Union>e \<in> set cs. M e)"
    by (auto simp: M_def)
  ultimately show ?case unfolding unf by (simp add: Un_assoc)
qed

subsection \<open>Answers of the two query modes\<close>

lemma indexed_query_set:
  assumes "[] \<notin> set D \<or> (distinct D \<and> q \<noteq> [])" "D \<noteq> []" "0 \<le> n"
    and "\<forall>x \<in> set D. dist x q + n < 2 ^ 31"
  shows "\<exists>ws. indexed_query r0 D q n = Some ws \<and> set ws = {x \<in> set D. dist x q \<le> n}"
proof -
  obtain w0 ws where D: "D = w0 # ws" using assms(2) by (cases D) auto
  have "[] \<notin> set ws \<or> distinct (w0 # ws)" using assms(1) D by auto
  then obtain t where t: "build_index r0 (w0 # ws) = Some t" "bk_inv t" "words_of t = set (w0 # ws)"
    using build_index_inv [of ws w0 r0] by blast
  have "q \<noteq> [] \<or> [] \<notin> words_of t" using assms(1) t(3) D by auto
  moreover have "\<forall>x \<in> words_of t. dist x q + n < 2 ^ 31"
    using assms(4) t(3) D by simp
  ultimately have "set (out (BkTree_query r0 q n t \<lparr>out = [], count = 0\<rparr>))
      = set (out \<lparr>out = [], count = 0\<rparr>) \<union> {x \<in> words_of t. dist x q \<le> n}"
    using query_out_set [OF t(2) _ assms(3)] by blast
  then show ?thesis using t D by (simp add: indexed_query_def)
qed

lemma edit_distance_bound_le:
  assumes "s1 \<noteq> [] \<or> s2 \<noteq> []"
  shows "edit_distance_bound r0 s1 s2 k \<le> k \<longleftrightarrow> dist s1 s2 \<le> k"
  using edit_distance_bound_levenshtein [OF assms, of k r0] by (auto simp: dist_def)

lemma brute_force_query_set:
  assumes "[] \<notin> set D \<or> q \<noteq> []" "D \<noteq> []"
  shows "\<exists>ws. brute_force_query r0 D q n = Some ws \<and> set ws = {w \<in> set D. dist w q \<le> n}"
proof -
  have "edit_distance_bound r0 w q n \<le> n \<longleftrightarrow> dist w q \<le> n" if "w \<in> set D" for w
    using that assms(1) by (intro edit_distance_bound_le) auto
  then show ?thesis using assms(2) by (auto simp: brute_force_query_def)
qed

subsection \<open>Edge labels\<close>

lemma value_of_insert [simp]: "value_of (BkTree_insert r0 word t) = value_of t"
  by (cases t) (simp add: Let_def split: option.split)

lemma insert_well_formed:
  assumes "well_formed r1 t" "bk_inv t" "word \<noteq> [] \<or> [] \<notin> words_of t"
  shows "well_formed r1 (BkTree_insert r0 word t)"
  using assms
proof (induction r0 word t rule: BkTree_insert.induct)
  case (1 r0 word v cs)
  define d where "d = edit_distance r0 v word"
  have sorted: "sorted_wrt (<) (map fst cs)"
    and below: "\<And>e. e \<in> set cs \<Longrightarrow> (\<forall>w \<in> words_of (snd e). dist v w = fst e) \<and> bk_inv (snd e)"
    using "1.prems"(2) by auto
  have wf: "\<And>e. e \<in> set cs \<Longrightarrow>
      fst e = edit_distance r1 v (value_of (snd e)) \<and> well_formed r1 (snd e)"
    using "1.prems"(1) by auto
  have ne: "v \<noteq> [] \<or> word \<noteq> []" using "1.prems"(3) by auto
  then have d: "d = edit_distance r1 v word" by (simp add: d_def edit_distance_dist)
  have dist': "distinct (map fst (assign_edge d t' cs))" for t'
    using assign_edge_sorted [OF sorted, of d t'] by (simp add: strict_sorted_iff)
  show ?case
  proof (cases "find_edge d cs")
    case None
    define cs' where "cs' = assign_edge d (Node word []) cs"
    have unf: "BkTree_insert r0 word (Node v cs) = Node v cs'"
      using None by (simp add: d_def [symmetric] cs'_def)
    have sub: "set cs' \<subseteq> insert (d, Node word []) (set cs)"
      using assign_edge_set [OF sorted, of d "Node word []"] by (auto simp: cs'_def)
    have "fst e = edit_distance r1 v (value_of (snd e)) \<and> well_formed r1 (snd e)"
      if "e \<in> set cs'" for e
    proof -
      from that sub consider "e = (d, Node word [])" | "e \<in> set cs" by auto
      then show ?thesis
      proof cases
        case 1
        then show ?thesis using d by simp
      next
        case 2
        then show ?thesis by (rule wf)
      qed
    qed
    then show ?thesis unfolding unf using dist' [of "Node word []"] by (simp add: cs'_def)
  next
    case (Some c)
    define c' where "c' = BkTree_insert r0 word c"
    define cs' where "cs' = assign_edge d c' cs"
    have unf: "BkTree_insert r0 word (Node v cs) = Node v cs'"
      using Some by (simp add: d_def [symmetric] cs'_def c'_def)
    have mem: "(d, c) \<in> set cs" using Some sorted by (simp add: find_edge_Some)
    have sub: "set cs' \<subseteq> insert (d, c') (set cs)"
      using assign_edge_set [OF sorted, of d c'] by (auto simp: cs'_def)
    have "word \<noteq> [] \<or> [] \<notin> words_of c" using "1.prems"(3) mem by force
    then have ih: "well_formed r1 c'"
      unfolding c'_def using "1.IH" [OF d_def Some] wf [OF mem] below [OF mem] by simp
    have "fst e = edit_distance r1 v (value_of (snd e)) \<and> well_formed r1 (snd e)"
      if "e \<in> set cs'" for e
    proof -
      from that sub consider "e = (d, c')" | "e \<in> set cs" by auto
      then show ?thesis
      proof cases
        case 1
        then show ?thesis using ih wf [OF mem] by (simp add: c'_def)
      next
        case 2
        then show ?thesis by (rule wf)
      qed
    qed
    then show ?thesis unfolding unf using dist' [of c'] by (simp add: cs'_def)
  qed
qed

lemma fold_insert_well_formed:
  assumes "well_formed r1 t" "bk_inv t" "[] \<notin> set ws \<or> ([] \<notin> words_of t \<and> distinct ws)"
  shows "well_formed r1 (fold (BkTree_insert r0) ws t)"
  using assms
proof (induction ws arbitrary: t)
  case Nil
  then show ?case by simp
next
  case (Cons w ws)
  have ne: "w \<noteq> [] \<or> [] \<notin> words_of t" using Cons.prems(3) by auto
  have step: "bk_inv (BkTree_insert r0 w t)"
    "words_of (BkTree_insert r0 w t) = insert w (words_of t)"
    using insert_inv [OF Cons.prems(2) ne, of r0] by simp_all
  have "[] \<notin> set ws \<or> ([] \<notin> words_of (BkTree_insert r0 w t) \<and> distinct ws)"
    using Cons.prems(3) step(2) by auto
  then show ?case
    using Cons.IH [OF insert_well_formed [OF Cons.prems(1,2) ne] step(1)] by simp
qed

subsection \<open>Concrete runs\<close>

lemma ed_a_b: "edit_distance r0 ''a'' ''b'' = 1" "edit_distance r0 ''b'' ''b'' = 0"
  "edit_distance r0 ''a'' ''a'' = 0" "edit_distance r0 ''b'' ''a'' = 1"
  by (simp_all add: edit_distance_dist dist_def)

lemma edb_a_b: "edit_distance_bound r0 ''a'' ''b'' 2147483647 = 1"
  "edit_distance_bound r0 ''b'' ''b'' 2147483647 = 0"
  using edit_distance_bound_levenshtein [of "''a''" "''b''" 2147483647 r0]
    edit_distance_bound_levenshtein [of "''b''" "''b''" 2147483647 r0]
  by simp_all

lemma overflow_index: "build_index r0 [''a'', ''b''] = Some (Node ''a'' [(1, Node ''b'' [])])"
  by (simp add: ed_a_b find_edge_def)

lemma overflow_query:
  "BkTree_query r0 ''b'' 2147483647 (Node ''a'' [(1, Node ''b'' [])]) \<lparr>out = [], count = 0\<rparr>
     = \<lparr>out = [''a''], count = 1\<rparr>"
  by (simp add: ed_a_b int32_def lower_bound_def upper_bound_def)

lemma empty_empty: "edit_distance r0 [] [] = r0"
  by (simp add: edit_distance_def init_row_def outer_loop.simps)

lemma bound_empty_empty: "edit_distance_bound r0 [] [] k = r0"
  by (simp add: edit_distance_bound_def init_row_def outer_loop_bound.simps)

subsection \<open>Node counts\<close>

lemma assign_edge_sum_new:
  fixes f :: "int \<times> BkTree \<Rightarrow> nat"
  assumes "sorted_wrt (<) (map fst cs)" "d \<notin> fst ` set cs"
  shows "sum_list (map f (assign_edge d t cs)) = f (d, t) + sum_list (map f cs)"
  using assms by (induction d t cs rule: assign_edge.induct) auto

lemma assign_edge_sum_replace:
  fixes f :: "int \<times> BkTree \<Rightarrow> nat"
  assumes "sorted_wrt (<) (map fst cs)" "(d, c) \<in> set cs"
  shows "sum_list (map f (assign_edge d t cs)) + f (d, c) = f (d, t) + sum_list (map f cs)"
  using assms
proof (induction d t cs rule: assign_edge.induct)
  case (1 d t)
  then show ?case by simp
next
  case (2 d t k c' cs)
  show ?case
  proof (cases "d = k")
    case True
    have "c' = c"
    proof (rule ccontr)
      assume "c' \<noteq> c"
      then have "(d, c) \<in> set cs" using 2(3) True by auto
      then have "k < d" using 2(2) by force
      then show False using True by simp
    qed
    then show ?thesis using True by simp
  next
    case False
    then have mem: "(d, c) \<in> set cs" using 2(3) by auto
    then have "k < d" using 2(2) by force
    then show ?thesis using 2(1) [OF _ False _ mem] 2(2) False by simp
  qed
qed

lemma insert_ordered_count:
  assumes "ordered t"
  shows "ordered (BkTree_insert r0 word t)
       \<and> node_count (BkTree_insert r0 word t) = Suc (node_count t)"
  using assms
proof (induction r0 word t rule: BkTree_insert.induct)
  case (1 r0 word v cs)
  define d where "d = edit_distance r0 v word"
  have sorted: "sorted_wrt (<) (map fst cs)"
    and below: "\<And>e. e \<in> set cs \<Longrightarrow> ordered (snd e)"
    using "1.prems" by auto
  show ?case
  proof (cases "find_edge d cs")
    case None
    define cs' where "cs' = assign_edge d (Node word []) cs"
    have unf: "BkTree_insert r0 word (Node v cs) = Node v cs'"
      using None by (simp add: d_def [symmetric] cs'_def)
    have new: "d \<notin> fst ` set cs" using None by (simp add: find_edge_None)
    have sub: "set cs' \<subseteq> insert (d, Node word []) (set cs)"
      using assign_edge_set [OF sorted, of d "Node word []"] by (auto simp: cs'_def)
    have "ordered (snd e)" if "e \<in> set cs'" for e
    proof -
      from that sub consider "e = (d, Node word [])" | "e \<in> set cs" by auto
      then show ?thesis by cases (simp_all add: below)
    qed
    then have "ordered (Node v cs')"
      using assign_edge_sorted [OF sorted, of d "Node word []"] by (simp add: cs'_def)
    moreover have "node_count (Node v cs') = Suc (node_count (Node v cs))"
      using assign_edge_sum_new [OF sorted new, of "\<lambda>e. node_count (snd e)" "Node word []"]
      by (simp add: cs'_def)
    ultimately show ?thesis unfolding unf by simp
  next
    case (Some c)
    define c' where "c' = BkTree_insert r0 word c"
    define cs' where "cs' = assign_edge d c' cs"
    have unf: "BkTree_insert r0 word (Node v cs) = Node v cs'"
      using Some by (simp add: d_def [symmetric] cs'_def c'_def)
    have mem: "(d, c) \<in> set cs" using Some sorted by (simp add: find_edge_Some)
    have ih: "ordered c' \<and> node_count c' = Suc (node_count c)"
      unfolding c'_def using "1.IH" [OF d_def Some] below [OF mem] by simp
    have sub: "set cs' \<subseteq> insert (d, c') (set cs)"
      using assign_edge_set [OF sorted, of d c'] by (auto simp: cs'_def)
    have "ordered (snd e)" if "e \<in> set cs'" for e
    proof -
      from that sub consider "e = (d, c')" | "e \<in> set cs" by auto
      then show ?thesis by cases (simp_all add: below ih)
    qed
    then have "ordered (Node v cs')"
      using assign_edge_sorted [OF sorted, of d c'] by (simp add: cs'_def)
    moreover have "node_count (Node v cs') = Suc (node_count (Node v cs))"
      using assign_edge_sum_replace [OF sorted mem, of "\<lambda>e. node_count (snd e)" c'] ih
      by (simp add: cs'_def)
    ultimately show ?thesis unfolding unf by simp
  qed
qed

lemma bk_inv_ordered: "bk_inv t \<Longrightarrow> ordered t"
proof (induction t rule: ordered.induct)
  case (1 v cs)
  then show ?case by auto
qed

lemma insert_root_unfold:
  "BkTree_insert r0 word (Node v cs) =
     (case find_edge (edit_distance r0 v word) cs of
        None \<Rightarrow> Node v (assign_edge (edit_distance r0 v word) (Node word []) cs)
      | Some c \<Rightarrow> Node v (assign_edge (edit_distance r0 v word) (BkTree_insert r0 word c) cs))"
  by (simp add: Let_def)

subsection \<open>The claims outside the two defects\<close>

text \<open>
  Where no distance is taken between two empty strings the results do not depend on the
  content of the unassigned cell: each call below may see a different one.
\<close>

lemma edit_distance_symmetric:
  assumes "s \<noteq> [] \<or> t \<noteq> []"
  shows "edit_distance r0 s t = edit_distance r1 t s"
proof -
  have "t \<noteq> [] \<or> s \<noteq> []" using assms by blast
  then show ?thesis
    using assms by (simp add: edit_distance_levenshtein levenshtein_sym [of s t])
qed

lemma edit_distance_triangle:
  assumes "a \<noteq> [] \<or> c \<noteq> []" "a \<noteq> [] \<or> b \<noteq> []" "b \<noteq> [] \<or> c \<noteq> []"
  shows "edit_distance r0 a c \<le> edit_distance r1 a b + edit_distance r2 b c"
  using assms levenshtein_triangle [of a c b] by (simp add: edit_distance_levenshtein)

lemma edit_distance_bound_correct:
  assumes "s \<noteq> [] \<or> t \<noteq> []"
  shows "(edit_distance r0 s t \<le> k \<longrightarrow> edit_distance_bound r1 s t k = edit_distance r0 s t)
       \<and> (k < edit_distance r0 s t \<longrightarrow> k < edit_distance_bound r1 s t k)"
  using edit_distance_bound_levenshtein [OF assms, of k r1]
  by (simp add: edit_distance_levenshtein [OF assms])

lemma distances_agree:
  assumes "[] \<notin> set D \<or> (distinct D \<and> q \<noteq> [])" "x \<in> set D"
  shows "edit_distance r1 x q = dist x q"
  using assms by (intro edit_distance_dist) auto

lemma indexed_query_edit_distance:
  assumes "[] \<notin> set D \<or> (distinct D \<and> q \<noteq> [])" "D \<noteq> []" "0 \<le> n"
    and "\<forall>x \<in> set D. edit_distance r1 x q + n < 2 ^ 31"
  shows "\<exists>ws. indexed_query r0 D q n = Some ws
       \<and> set ws = {x \<in> set D. edit_distance r1 x q \<le> n}"
proof -
  have eq: "edit_distance r1 x q = dist x q" if "x \<in> set D" for x
    using assms(1) that by (rule distances_agree)
  have "\<forall>x \<in> set D. dist x q + n < 2 ^ 31" using assms(4) eq by simp
  moreover have "{x \<in> set D. edit_distance r1 x q \<le> n} = {x \<in> set D. dist x q \<le> n}"
    using eq by auto
  ultimately show ?thesis using indexed_query_set [OF assms(1,2,3), of r0] by simp
qed

lemma insertions_keep_well_formed:
  assumes "[] \<notin> set ws \<or> distinct (w0 # ws)"
  shows "well_formed r1 (fold (BkTree_insert r0) ws (Node w0 []))"
proof -
  have "[] \<notin> set ws \<or> ([] \<notin> words_of (Node w0 []) \<and> distinct ws)"
    using assms by auto
  then show ?thesis
    by (intro fold_insert_well_formed) simp_all
qed

section \<open>The claims about the BK-tree program\<close>

text \<open>
  C1. The claim: for every dictionary of distinct words, every query and every radius
  \<open>n \<ge> 0\<close>, the indexed query prints exactly the words within distance \<open>n\<close>, in every
  insertion order.

  The radius is an \<open>int\<close>, and so are the ends \<open>d - n\<close> and \<open>d + n\<close> of the window of keys.
  At the radius \<open>2147483647\<close> the upper end overflows at every node whose pivot differs
  from the query: for the words \<open>a b\<close> and the query \<open>b\<close> the tree is \<open>a -1-> b\<close>, the root is
  printed, the window of keys ends below its start, the child \<open>b\<close> is never visited, and
  the word \<open>b\<close>, at distance \<open>0\<close> from the query, is not printed. The first argument is
  the content of the cell \<open>row[0]\<close> before it is written; this run does not read it.
\<close>

theorem indexed_query_radius_overflow:
  "indexed_query 0 [''a'', ''b''] ''b'' 2147483647 = Some [''a'']
   \<and> edit_distance 0 ''b'' ''b'' = 0"
  by (simp add: indexed_query_def overflow_index overflow_query ed_a_b
        del: build_index.simps BkTree_query.simps)

text \<open>
  C1, as the code has it: when \<open>d + n\<close> is an \<open>int\<close> for the distance \<open>d\<close> of every word to
  the query, the indexed query prints exactly the words within distance \<open>n\<close>, whatever
  the order the words were inserted in. The statement leaves out the query for the empty
  word in a dictionary that holds the empty word: the distance of the empty string to
  itself is the subject of C4.
\<close>

theorem indexed_query_correct:
  assumes "D \<noteq> []" "distinct D" "[] \<notin> set D \<or> q \<noteq> []" "0 \<le> n"
    and "\<forall>x \<in> set D. edit_distance r1 x q + n < 2 ^ 31"
  shows "\<forall>D'. distinct D' \<and> set D' = set D \<longrightarrow>
           (\<exists>ws. indexed_query r0 D' q n = Some ws
              \<and> set ws = {x \<in> set D. edit_distance r1 x q \<le> n})"
proof (intro allI impI)
  fix D' assume D': "distinct D' \<and> set D' = set D"
  have "[] \<notin> set D' \<or> (distinct D' \<and> q \<noteq> [])" using assms(3) D' by auto
  moreover have "D' \<noteq> []" using assms(1) D' by auto
  moreover have "\<forall>x \<in> set D'. edit_distance r1 x q + n < 2 ^ 31" using assms(5) D' by simp
  ultimately have "\<exists>ws. indexed_query r0 D' q n = Some ws
      \<and> set ws = {x \<in> set D'. edit_distance r1 x q \<le> n}"
    using assms(4) by (intro indexed_query_edit_distance)
  then show "\<exists>ws. indexed_query r0 D' q n = Some ws
      \<and> set ws = {x \<in> set D. edit_distance r1 x q \<le> n}"
    using D' by simp
qed

theorem indexed_query_correct_witness:
  "\<exists>ws. indexed_query 0 [''cake'', ''boo'', ''book''] ''bo'' 2 = Some ws
     \<and> set ws = {''boo'', ''book''}"
proof -
  have d: "edit_distance 0 ''book'' ''bo'' = 2" "edit_distance 0 ''boo'' ''bo'' = 1"
    "edit_distance 0 ''cake'' ''bo'' = 4"
    by (simp_all add: edit_distance_levenshtein)
  have "\<forall>D'. distinct D' \<and> set D' = set [''book'', ''boo'', ''cake''] \<longrightarrow>
      (\<exists>ws. indexed_query 0 D' ''bo'' 2 = Some ws
         \<and> set ws = {x \<in> set [''book'', ''boo'', ''cake'']. edit_distance 0 x ''bo'' \<le> 2})"
    by (rule indexed_query_correct) (simp_all add: d)
  then have "\<exists>ws. indexed_query 0 [''cake'', ''boo'', ''book''] ''bo'' 2 = Some ws
      \<and> set ws = {x \<in> set [''book'', ''boo'', ''cake'']. edit_distance 0 x ''bo'' \<le> 2}"
    by (elim allE [where x = "[''cake'', ''boo'', ''book'']"]) auto
  moreover have "{x \<in> set [''book'', ''boo'', ''cake'']. edit_distance 0 x ''bo'' \<le> 2}
      = {''boo'', ''book''}"
    using d by auto
  ultimately show ?thesis by simp
qed

text \<open>
  C2. The claim: for all strings and every bound \<open>k \<ge> 0\<close>, \<open>edit_distance_bound\<close> returns
  the distance when it is at most \<open>k\<close> and a value above \<open>k\<close> otherwise.

  For two empty strings neither loop of \<open>edit_distance_bound\<close> runs and the function
  returns \<open>row[0]\<close>, which no statement has assigned: the result is the content the
  cell happened to hold, whatever the bound, while the distance of the empty string to
  itself is \<open>0\<close>. (For every other pair the claim holds:
  \<open>edit_distance_bound_correct\<close>.)
\<close>

theorem edit_distance_bound_empty_empty:
  "edit_distance_bound r0 [] [] k = r0 \<and> levenshtein ([] :: string) [] = 0"
  by (simp add: bound_empty_empty)

text \<open>
  C3. The claim: for every dictionary, query and radius the brute-force scan and the
  indexed query print the same set of words.

  At the radius \<open>2147483647\<close> the scan prints both words \<open>a\<close> and \<open>b\<close> for the query
  \<open>b\<close>, and the indexed query prints \<open>a\<close> only: the overflow of \<open>d + n\<close> described at C1.
\<close>

theorem brute_force_differs_at_overflow:
  "brute_force_query 0 [''a'', ''b''] ''b'' 2147483647 = Some [''a'', ''b'']
   \<and> indexed_query 0 [''a'', ''b''] ''b'' 2147483647 = Some [''a'']"
  by (simp add: brute_force_query_def edb_a_b indexed_query_def overflow_index overflow_query
        del: build_index.simps BkTree_query.simps)

text \<open>
  C3, as the code has it: for a radius \<open>n \<ge> 0\<close> such that \<open>d + n\<close> is an \<open>int\<close> for the
  distance \<open>d\<close> of every word to the query, both modes answer, and with the same set of
  words. The statement leaves out the runs that take the distance of the empty string to
  itself (C4): the dictionary is free of the empty word, or it is distinct and the query
  is not empty.
\<close>

theorem brute_force_matches_index:
  assumes "D \<noteq> []" "[] \<notin> set D \<or> (distinct D \<and> q \<noteq> [])" "0 \<le> n"
    and "\<forall>x \<in> set D. edit_distance r2 x q + n < 2 ^ 31"
  shows "\<exists>bs ws. brute_force_query r0 D q n = Some bs \<and> indexed_query r1 D q n = Some ws
       \<and> set bs = set ws"
proof -
  have eq: "edit_distance r2 x q = dist x q" if "x \<in> set D" for x
    using assms(2) that by (rule distances_agree)
  have "\<forall>x \<in> set D. dist x q + n < 2 ^ 31" using assms(4) eq by simp
  then obtain ws where ws: "indexed_query r1 D q n = Some ws" "set ws = {x \<in> set D. dist x q \<le> n}"
    using indexed_query_set [OF assms(2,1,3), of r1] by blast
  have "[] \<notin> set D \<or> q \<noteq> []" using assms(2) by blast
  then obtain bs where bs: "brute_force_query r0 D q n = Some bs"
    "set bs = {x \<in> set D. dist x q \<le> n}"
    using brute_force_query_set [OF _ assms(1), of q r0 n] by blast
  show ?thesis using ws bs by simp
qed

theorem brute_force_matches_index_witness:
  "\<exists>bs ws. brute_force_query 0 [''book'', ''boo'', ''cake''] ''bo'' 2 = Some bs
     \<and> indexed_query 0 [''book'', ''boo'', ''cake''] ''bo'' 2 = Some ws \<and> set bs = set ws"
proof -
  have d: "edit_distance 0 ''book'' ''bo'' = 2" "edit_distance 0 ''boo'' ''bo'' = 1"
    "edit_distance 0 ''cake'' ''bo'' = 4"
    by (simp_all add: edit_distance_levenshtein)
  show ?thesis
    by (rule brute_force_matches_index [where ?r2.0 = 0]) (simp_all add: d)
qed

text \<open>
  C4. The claim: \<open>edit_distance\<close> is symmetric and satisfies the triangle inequality for
  all strings.

  For two empty strings \<open>edit_distance\<close> returns the unassigned cell \<open>row[0]\<close>. With the
  distances \<open>1\<close> between the empty string and \<open>x\<close>, the triangle inequality
  \<open>d('''', '''') \<le> d('''', x) + d(x, '''')\<close> fails whenever that cell holds more than \<open>2\<close>,
  and \<open>d('''', x) \<le> d('''', '''') + d('''', x)\<close> whenever it holds a negative value. (When no
  pair is two empty strings, \<open>edit_distance\<close> is the Levenshtein distance, symmetric and
  with the triangle inequality: \<open>edit_distance_levenshtein\<close>, \<open>edit_distance_symmetric\<close>,
  \<open>edit_distance_triangle\<close>.)
\<close>

theorem edit_distance_empty_empty:
  "edit_distance r0 [] [] = r0 \<and> edit_distance r0 [] ''x'' = 1 \<and> edit_distance r0 ''x'' [] = 1"
  by (simp add: empty_empty edit_distance_dist dist_def)

text \<open>
  C5. The claim: when the word is at distance \<open>0\<close> from the pivot reached, insertion
  creates no node and leaves the tree unchanged.

  \<open>insert\<close> has no case for the distance \<open>0\<close>: it is a key like any other. Inserting
  \<open>a\<close> into the tree that holds only \<open>a\<close> attaches a second node under the label \<open>0\<close>.
\<close>

theorem insert_duplicate_counterexample:
  "edit_distance 0 ''a'' ''a'' = 0
   \<and> BkTree_insert 0 ''a'' (Node ''a'' []) = Node ''a'' [(0, Node ''a'' [])]
   \<and> BkTree_insert 0 ''a'' (Node ''a'' []) \<noteq> Node ''a'' []"
  by (simp add: ed_a_b find_edge_def)

text \<open>
  C5, as the code has it: at a node whose pivot is at distance \<open>0\<close> from the word, the
  word is attached as a new leaf under the label \<open>0\<close> when the node has no such child,
  and inserted below that child otherwise; either way the tree has one node more.
\<close>

theorem insert_duplicate_adds_node:
  assumes "ordered (Node v cs)" "edit_distance r0 v word = 0"
  shows "node_count (BkTree_insert r0 word (Node v cs)) = Suc (node_count (Node v cs))
       \<and> BkTree_insert r0 word (Node v cs) =
           (case find_edge 0 cs of
              None \<Rightarrow> Node v (assign_edge 0 (Node word []) cs)
            | Some c \<Rightarrow> Node v (assign_edge 0 (BkTree_insert r0 word c) cs))"
  using insert_ordered_count [OF assms(1), of r0 word] insert_root_unfold [of r0 word v cs]
    assms(2) by simp

theorem insert_duplicate_adds_node_witness:
  "ordered (Node ''a'' []) \<and> edit_distance 0 ''a'' ''a'' = 0
   \<and> node_count (BkTree_insert 0 ''a'' (Node ''a'' [])) = Suc (node_count (Node ''a'' []))
   \<and> BkTree_insert 0 ''a'' (Node ''a'' []) = Node ''a'' [(0, Node ''a'' [])]"
proof -
  have o: "ordered (Node ''a'' [])" by simp
  have d: "edit_distance 0 ''a'' ''a'' = 0" by (simp add: ed_a_b)
  show ?thesis
    using insert_duplicate_adds_node [OF o d] o d by (simp add: find_edge_def)
qed

text \<open>
  C6. The claim: every sequence of insertions keeps every edge labelled with the
  distance between the pivots at its ends, and the labels below one node distinct.

  Inserting the empty word below the pivot that is the empty word labels the new edge
  with \<open>edit_distance('''', '''')\<close>, the unassigned cell \<open>row[0]\<close> of C4: the label is the
  distance between the two pivots only if the cell holds the same value when the distance
  is taken again. (When the empty word is inserted at most once, every insertion keeps
  the invariant: \<open>insertions_keep_well_formed\<close>.)
\<close>

theorem insert_empty_below_empty:
  "BkTree_insert r0 [] (Node [] []) = Node [] [(r0, Node [] [])]
   \<and> (well_formed r1 (BkTree_insert r0 [] (Node [] [])) \<longleftrightarrow> r0 = r1)"
  by (simp add: empty_empty find_edge_def)

section \<open>The corner finder (find_corners.c)\<close>

text \<open>
  \<open>find_corners\<close> is one function; the model gives each of its stages a definition of
  its own: the votes (lines 35 to 55), the sweep around a candidate cell (lines 82 to
  96), the choice of the four lines (lines 102 to 128) and the four intersections (lines
  142 to 145).

  An access to the array \<open>houghmap\<close> outside its cells is undefined in C, and so is the
  conversion to \<open>unsigned\<close> of a floating-point value that is not a number or has no
  \<open>unsigned\<close> value; the model returns both as errors.
\<close>

datatype error = Out_of_bounds int | Not_representable

type_synonym 'a result = "error + 'a"

definition kNumAngles :: int where
  "kNumAngles = 360"

text \<open>A \<open>for\<close> loop over the values \<open>is\<close>, stopped by the first error of its body.\<close>

fun for_each :: "'i list \<Rightarrow> ('i \<Rightarrow> 's \<Rightarrow> 's result) \<Rightarrow> 's \<Rightarrow> 's result" where
  "for_each [] body s = Inr s"
| "for_each (i # is) body s =
     (case body i s of Inl e \<Rightarrow> Inl e | Inr s' \<Rightarrow> for_each is body s')"

subsection \<open>Floating-point values\<close>

text \<open>
  \<open>float\<close> and \<open>double\<close> are the binary32 and binary64 formats of IEEE 754, with
  significands of \<open>24\<close> and \<open>53\<close> bits and least exponents \<open>-126\<close> and \<open>-1022\<close>. A value
  is read as the real number it stands for, and an operation or a conversion yields the
  exact result rounded to the nearest value of its type, ties to the even significand,
  each operation of an expression being rounded by itself. The model has no infinities:
  the roundings below are of values far inside the range of the type.

  \<open>rne\<close> rounds to the nearest integer, ties to even; \<open>ulp p emin x\<close> is the distance of
  the values of the format around \<open>x\<close>.
\<close>

definition rne :: "real \<Rightarrow> int" where
  "rne x =
     (if x - of_int \<lfloor>x\<rfloor> < 1 / 2 then \<lfloor>x\<rfloor>
      else if 1 / 2 < x - of_int \<lfloor>x\<rfloor> then \<lfloor>x\<rfloor> + 1
      else if even \<lfloor>x\<rfloor> then \<lfloor>x\<rfloor> else \<lfloor>x\<rfloor> + 1)"

definition ulp :: "nat \<Rightarrow> int \<Rightarrow> real \<Rightarrow> real" where
  "ulp p emin x = 2 powi (max \<lfloor>log 2 \<bar>x\<bar>\<rfloor> emin - int p + 1)"

definition round_to :: "nat \<Rightarrow> int \<Rightarrow> real \<Rightarrow> real" where
  "round_to p emin x = (if x = 0 then 0 else of_int (rne (x / ulp p emin x)) * ulp p emin x)"

definition to_float :: "real \<Rightarrow> real" where
  "to_float = round_to 24 (- 126)"

definition to_double :: "real \<Rightarrow> real" where
  "to_double = round_to 53 (- 1022)"

text \<open>The constant \<open>M_PI\<close> of \<open>math.h\<close>: the \<open>double\<close> nearest to \<open>pi\<close>.\<close>

definition M_PI :: real where
  "M_PI = 884279719003555 / 281474976710656"

text \<open>
  The bounds of the rounding error: a rounding to \<open>float\<close> (and all the more one to
  \<open>double\<close>) changes a value \<open>x\<close> by at most \<open>\<bar>x\<bar> * eps + tiny\<close>.
\<close>

definition eps :: real where
  "eps = 2 powi (- 24)"

definition tiny :: real where
  "tiny = 2 powi (- 150)"

subsection \<open>The votes\<close>

text \<open>
  Modelled from the spec: \<open>graymap_t\<close> is declared in \<open>graymap.h\<close>, which is not among
  the sources; the specification gives it a width, a height and \<open>w * h\<close> byte samples in
  row-major order. The arithmetic on the width and the height is that of \<open>int\<close>; an
  overflow, undefined in C, is given the value the wrap-around of a 32-bit machine leaves
  (\<open>int32\<close>).
\<close>

record graymap =
  w :: nat
  h :: nat
  data :: "8 word list"

text \<open>
  Lines 35 to 39: \<open>float rho = a * M_PI / kNumAngles\<close> is a product and a quotient of
  \<open>double\<close>s, converted to \<open>float\<close>; \<open>sin\<close> and \<open>cos\<close> are the functions of the C library
  on \<open>double\<close>, taken to return the \<open>double\<close> nearest to the sine and the cosine, and
  their results are converted to \<open>float\<close>.
\<close>

definition rho :: "nat \<Rightarrow> real" where
  "rho a = to_float (to_double (to_double (real a * M_PI) / 360))"

definition kSin :: "nat \<Rightarrow> real" where
  "kSin a = to_float (to_double (sin (rho a)))"

definition kCos :: "nat \<Rightarrow> real" where
  "kCos a = to_float (to_double (cos (rho a)))"

text \<open>
  Line 41: \<open>w*w + h*h\<close> is computed in \<open>int\<close>, its square root in \<open>double\<close> and converted
  to \<open>float\<close>. The square root of a negative number is not a number: \<open>None\<close>.
\<close>

definition kMaxRadius :: "graymap \<Rightarrow> real option" where
  "kMaxRadius g =
     (let s = int32 (int (w g) * int (w g) + int (h g) * int (h g))
      in if s < 0 then None else Some (to_float (to_double (sqrt (real_of_int s)))))"

text \<open>
  Lines 48 to 51. The coordinates and \<open>kNumRadii - 1\<close> are converted to \<open>float\<close>, the
  products, the sum and the quotient are \<open>float\<close> operations, and the quotient is
  converted to \<open>unsigned\<close> by dropping its fraction. A quotient by zero or by a value that
  is not a number has no \<open>unsigned\<close> value.
\<close>

definition radius_bin :: "graymap \<Rightarrow> nat \<Rightarrow> nat \<Rightarrow> nat \<Rightarrow> nat result" where
  "radius_bin g x y a =
     (let nx = kCos a; ny = kSin a;
          r = \<bar>to_float (to_float (nx * to_float (real x)) + to_float (ny * to_float (real y)))\<bar>
      in case kMaxRadius g of
           None \<Rightarrow> Inl Not_representable
         | Some m \<Rightarrow>
             if m = 0 then Inl Not_representable
             else
               let q = to_float (to_float (r * to_float (real (h g) - 1)) / m)
               in if - 1 < q \<and> q < 2 ^ 32 then Inr (nat \<lfloor>q\<rfloor>) else Inl Not_representable)"

text \<open>
  One vote, \<open>houghmap[ri*kNumAngles + a]++\<close>, on \<open>unsigned\<close> cells; the index is computed
  in \<open>unsigned\<close>.
\<close>

definition vote :: "nat \<Rightarrow> nat \<Rightarrow> 32 word list \<Rightarrow> 32 word list result" where
  "vote ri a houghmap =
     (let i = (ri * nat kNumAngles + a) mod 2 ^ 32
      in if i < length houghmap then Inr (houghmap[i := houghmap ! i + 1])
         else Inl (Out_of_bounds (int i)))"

text \<open>Lines 45 to 53 for the pixel \<open>(x, y)\<close>; the index \<open>y*w + x\<close> is an \<open>int\<close>.\<close>

definition pixel_votes :: "graymap \<Rightarrow> nat \<Rightarrow> nat \<Rightarrow> 32 word list \<Rightarrow> 32 word list result" where
  "pixel_votes g y x houghmap =
     (let i = int32 (int y * int (w g) + int x)
      in if i < 0 \<or> int (length (data g)) \<le> i then Inl (Out_of_bounds i)
         else if data g ! nat i = 255 then Inr houghmap
         else for_each [0..<nat kNumAngles]
                (\<lambda>a hm. case radius_bin g x y a of Inl e \<Rightarrow> Inl e | Inr ri \<Rightarrow> vote ri a hm)
                houghmap)"

text \<open>
  Lines 42 to 55. \<open>calloc\<close> is given the \<open>int\<close> product \<open>kNumRadii * kNumAngles\<close>; for a
  negative product, a size beyond any memory, it returns no cells.
\<close>

definition hough_accumulate :: "graymap \<Rightarrow> 32 word list result" where
  "hough_accumulate g =
     for_each [0..<h g] (\<lambda>y. for_each [0..<w g] (\<lambda>x. pixel_votes g y x))
       (replicate (nat (int32 (int (h g) * kNumAngles))) 0)"

text \<open>The number of foreground pixels, and the votes of one angle over all radius bins.\<close>

definition foreground :: "graymap \<Rightarrow> nat" where
  "foreground g = length (filter (\<lambda>s. s \<noteq> 255) (data g))"

definition column_sum :: "nat \<Rightarrow> 32 word list \<Rightarrow> nat \<Rightarrow> nat" where
  "column_sum rows houghmap a = (\<Sum>ri<rows. unat (houghmap ! (ri * nat kNumAngles + a)))"

subsection \<open>The sweep around a candidate\<close>

record sweep_state =
  houghmap :: "32 word list"
  best :: "32 word"
  besta :: int
  bestr :: int

definition imin :: "int \<Rightarrow> int \<Rightarrow> int" where
  "imin a b = (if a < b then a else b)"

definition imax :: "int \<Rightarrow> int \<Rightarrow> int" where
  "imax a b = (if a > b then a else b)"

text \<open>The body of the loop over \<open>ad\<close>, lines 88 to 94.\<close>

definition sweep_cell :: "int \<Rightarrow> int \<Rightarrow> sweep_state \<Rightarrow> sweep_state result" where
  "sweep_cell rd ad s =
     (let aii = (if ad < 0 then ad + kNumAngles else ad);
          i = rd * kNumAngles + aii
      in if i < 0 \<or> int (length (houghmap s)) \<le> i then Inl (Out_of_bounds i)
         else
           let s' = (if houghmap s ! nat i > best s
                     then s\<lparr>best := houghmap s ! nat i, besta := aii, bestr := rd\<rparr>
                     else s)
           in Inr (s'\<lparr>houghmap := (houghmap s')[nat i := 0]\<rparr>))"

text \<open>Lines 82 to 96 for the candidate cell \<open>(ri, ai)\<close>, with \<open>k = 31\<close> and \<open>k/2 = 15\<close>.\<close>

definition sweep :: "int \<Rightarrow> int \<Rightarrow> int \<Rightarrow> 32 word list \<Rightarrow> sweep_state result" where
  "sweep kNumRadii ri ai hm =
     (let k = 31 :: int; i = ri * kNumAngles + ai
      in if i < 0 \<or> int (length hm) \<le> i then Inl (Out_of_bounds i)
         else
           for_each [imax (ri - k div 2) 0 ..imin (ri + k div 2) (kNumRadii - 1)]
             (\<lambda>rd. for_each [ai - k div 2 ..ai + k div 2] (\<lambda>ad. sweep_cell rd ad))
             \<lparr>houghmap = hm, best = hm ! nat i, besta = ai, bestr = ri\<rparr>)"

subsection \<open>The choice of the four lines\<close>

text \<open>
  \<open>float lines[4][2]\<close> holds an angle and a radius per line, \<open>bool line_set[2]\<close> says which
  pair has been set; \<open>deg\<close> and \<open>radius\<close> are the \<open>float\<close>s computed at lines 99 and 100.
  Line 99, \<open>float deg = besta * M_PI / kNumAngles\<close>, is the expression of line 36.

  The test of line 109, \<open>fabs(deg - lines[0][0]) < 10 * M_PI / 180\<close>: the difference is a
  \<open>float\<close> operation, and its absolute value is compared with the \<open>double\<close> on the right.
  The comparisons of two radii and the assignments are exact.
\<close>

definition deg_of :: "nat \<Rightarrow> real" where
  "deg_of a = to_float (to_double (to_double (real a * M_PI) / 360))"

definition parallel :: "real \<Rightarrow> real \<Rightarrow> bool" where
  "parallel deg l0 \<longleftrightarrow> \<bar>to_float (deg - l0)\<bar> < to_double (to_double (10 * M_PI) / 180)"

record pair_state =
  lines :: "(real \<times> real) list"
  line_set :: "bool list"

definition line_pair :: "real \<Rightarrow> real \<Rightarrow> pair_state \<Rightarrow> pair_state" where
  "line_pair deg radius s =
     (if \<not> line_set s ! 0 then
        s\<lparr>lines := (lines s)[0 := (deg, radius), 1 := (deg, radius)],
          line_set := (line_set s)[0 := True]\<rparr>
      else if parallel deg (fst (lines s ! 0)) then
        (if radius > snd (lines s ! 1) then s\<lparr>lines := (lines s)[1 := (deg, radius)]\<rparr>
         else s)
      else if \<not> line_set s ! 1 then
        s\<lparr>lines := (lines s)[2 := (deg, radius), 3 := (deg, radius)],
          line_set := (line_set s)[1 := True]\<rparr>
      else
        (if radius > snd (lines s ! 3) then s\<lparr>lines := (lines s)[3 := (deg, radius)]\<rparr>
         else s))"

subsection \<open>The intersections\<close>

text \<open>
  \<open>intersect\<close> writes \<open>point\<close> only when it returns \<open>true\<close>: the model returns the flag and
  the content of \<open>point\<close> afterwards.
\<close>

definition determinant :: "real \<times> real \<Rightarrow> real \<times> real \<Rightarrow> real" where
  "determinant l1 l2 = cos (fst l1) * sin (fst l2) - cos (fst l2) * sin (fst l1)"

definition intersect ::
  "real \<times> real \<Rightarrow> real \<times> real \<Rightarrow> real \<times> real \<Rightarrow> bool \<times> (real \<times> real)" where
  "intersect point l1 l2 =
     (let nx1 = cos (fst l1); ny1 = sin (fst l1);
          nx2 = cos (fst l2); ny2 = sin (fst l2);
          d = nx1 * ny2 - nx2 * ny1
      in if \<bar>d\<bar> < 1 / 10000 then (False, point)
         else (True, (\<bar>(ny2 * snd l1 - ny1 * snd l2) / d\<bar>, \<bar>(nx1 * snd l2 - nx2 * snd l1) / d\<bar>)))"

text \<open>
  One operand of the chain of \<open>&&\<close> at lines 142 to 145: evaluated only when the operands
  before it were true.
\<close>

definition and_intersect ::
  "nat \<Rightarrow> nat \<Rightarrow> nat \<Rightarrow> (real \<times> real) list \<Rightarrow> bool \<times> (real \<times> real) list
     \<Rightarrow> bool \<times> (real \<times> real) list" where
  "and_intersect i a b ls r =
     (case r of
        (False, corners) \<Rightarrow> (False, corners)
      | (True, corners) \<Rightarrow>
          (case intersect (corners ! i) (ls ! a) (ls ! b) of
             (ok, point) \<Rightarrow> (ok, corners[i := point])))"

definition corners_of_lines ::
  "(real \<times> real) list \<Rightarrow> (real \<times> real) list \<Rightarrow> bool \<times> (real \<times> real) list" where
  "corners_of_lines ls corners =
     and_intersect 3 1 3 ls (and_intersect 2 1 2 ls (and_intersect 1 0 3 ls
       (and_intersect 0 0 2 ls (True, corners))))"

text \<open>Whether two lines cross by the test of \<open>intersect\<close>, and the point they cross at.\<close>

definition crosses :: "real \<times> real \<Rightarrow> real \<times> real \<Rightarrow> bool" where
  "crosses l1 l2 = (\<not> \<bar>determinant l1 l2\<bar> < 1 / 10000)"

definition crossing :: "real \<times> real \<Rightarrow> real \<times> real \<Rightarrow> real \<times> real" where
  "crossing l1 l2 =
     (\<bar>(sin (fst l2) * snd l1 - sin (fst l1) * snd l2) / determinant l1 l2\<bar>,
      \<bar>(cos (fst l1) * snd l2 - cos (fst l2) * snd l1) / determinant l1 l2\<bar>)"

text \<open>
  The state of the accumulator after \<open>c\<close> foreground pixels have voted, and the number of
  foreground pixels among the first \<open>p\<close> samples.
\<close>

definition voted :: "nat \<Rightarrow> nat \<Rightarrow> 32 word list \<Rightarrow> bool" where
  "voted rows c hm \<longleftrightarrow> length hm = rows * 360 \<and> (\<forall>a<360. column_sum rows hm a = c)"

definition seen :: "graymap \<Rightarrow> nat \<Rightarrow> nat" where
  "seen g p = length (filter (\<lambda>s. s \<noteq> 255) (take p (data g)))"

section \<open>Properties of the corner finder\<close>

subsection \<open>Loops\<close>

lemma for_each_append:
  "for_each (xs @ ys) body s =
     (case for_each xs body s of Inl e \<Rightarrow> Inl e | Inr s' \<Rightarrow> for_each ys body s')"
  by (induction xs arbitrary: s) (auto split: sum.splits)

lemma for_each_invariant:
  assumes "I s" "\<And>i s. i \<in> set xs \<Longrightarrow> I s \<Longrightarrow> \<exists>s'. body i s = Inr s' \<and> I s'"
  shows "\<exists>s'. for_each xs body s = Inr s' \<and> I s'"
  using assms
proof (induction xs arbitrary: s)
  case Nil
  then show ?case by simp
next
  case (Cons x xs)
  obtain s1 where s1: "body x s = Inr s1" "I s1"
    using Cons.prems(2) [of x s] Cons.prems(1) by auto
  have "\<exists>s'. for_each xs body s1 = Inr s' \<and> I s'"
    using Cons.IH [OF s1(2)] Cons.prems(2) by simp
  then show ?case using s1 by simp
qed

lemma for_each_fails:
  assumes "I s" "\<And>i s. i \<in> set xs \<Longrightarrow> I s \<Longrightarrow> \<exists>s'. body i s = Inr s' \<and> I s'"
    and "\<And>s. I s \<Longrightarrow> body j s = Inl e"
  shows "for_each (xs @ j # ys) body s = Inl e"
proof -
  obtain s1 where "for_each xs body s = Inr s1" "I s1"
    using for_each_invariant [of I s xs body] assms(1,2) by blast
  then show ?thesis using assms(3) by (simp add: for_each_append)
qed

subsection \<open>The sweep\<close>

lemma sweep_cell_inside:
  assumes "0 \<le> ad" "0 \<le> rd * 360 + ad" "rd * 360 + ad < int (length (houghmap s))"
  shows "\<exists>s'. sweep_cell rd ad s = Inr s' \<and> length (houghmap s') = length (houghmap s)"
  using assms by (simp add: sweep_cell_def kNumAngles_def Let_def)

lemma sweep_cell_outside:
  assumes "0 \<le> ad" "int (length (houghmap s)) \<le> rd * 360 + ad"
  shows "sweep_cell rd ad s = Inl (Out_of_bounds (rd * 360 + ad))"
  using assms by (simp add: sweep_cell_def kNumAngles_def Let_def)

lemma sweep_cell_wrapped:
  assumes "- 360 \<le> ad" "ad < 360" "0 \<le> rd" "(rd + 1) * 360 \<le> int (length (houghmap s))"
  shows "\<exists>s'. sweep_cell rd ad s = Inr s' \<and> length (houghmap s') = length (houghmap s)"
  using assms by (simp add: sweep_cell_def kNumAngles_def Let_def)

lemma sweep_stays_inside:
  assumes "0 \<le> ri" "ri < R" "0 \<le> ai" "ai \<le> 344" "length hm = nat (R * 360)"
  shows "\<exists>s. sweep R ri ai hm = Inr s \<and> length (houghmap s) = length hm"
proof -
  define I where "I s \<longleftrightarrow> length (houghmap s) = nat (R * 360)" for s :: sweep_state
  define s0 where "s0 = \<lparr>houghmap = hm, best = hm ! nat (ri * 360 + ai), besta = ai, bestr = ri\<rparr>"
  define rows where "rows = [imax (ri - 15) 0 ..imin (ri + 15) (R - 1)]"
  define cols where "cols = [ai - 15 ..ai + 15]"
  have I0: "I s0" by (simp add: I_def s0_def assms)
  have row: "\<exists>s'. for_each cols (\<lambda>ad. sweep_cell rd ad) s = Inr s' \<and> I s'"
    if "rd \<in> set rows" "I s" for rd s
  proof (rule for_each_invariant [where I = I])
    show "I s" by fact
    fix ad s1 assume ad: "ad \<in> set cols" and s1: "I s1"
    have "- 360 \<le> ad" "ad < 360" using ad assms by (simp_all add: cols_def)
    moreover have "0 \<le> rd" "rd \<le> R - 1"
      using that(1) by (simp_all add: rows_def imax_def imin_def split: if_splits)
    moreover have "(rd + 1) * 360 \<le> int (length (houghmap s1))"
      using s1 \<open>rd \<le> R - 1\<close> \<open>0 \<le> rd\<close> by (simp add: I_def)
    ultimately show "\<exists>s'. sweep_cell rd ad s1 = Inr s' \<and> I s'"
      using sweep_cell_wrapped [of ad rd s1] s1 by (simp add: I_def)
  qed
  have "\<exists>s'. for_each rows (\<lambda>rd. for_each cols (\<lambda>ad. sweep_cell rd ad)) s0 = Inr s' \<and> I s'"
    by (rule for_each_invariant [where I = I]) (use I0 row in auto)
  moreover have "\<not> (ri * 360 + ai < 0 \<or> int (length hm) \<le> ri * 360 + ai)"
    using assms by simp
  ultimately show ?thesis
    unfolding sweep_def
    by (simp add: Let_def kNumAngles_def rows_def [symmetric] s0_def [symmetric]
        cols_def [symmetric] I_def assms(5))
qed

subsection \<open>Floating-point values\<close>

lemma rne_of_int [simp]: "rne (of_int n) = n"
  by (simp add: rne_def)

lemma rne_near: "\<bar>of_int (rne x) - x\<bar> \<le> 1 / 2"
  unfolding rne_def by (auto simp: abs_if) linarith+

lemma ulp_pos: "0 < ulp p emin x"
  by (simp add: ulp_def)

lemma powr_powi: "(2::real) powr real_of_int k = 2 powi k"
  by (simp add: powr_real_of_int')

lemma floor_log2_iff:
  assumes "x \<noteq> 0"
  shows "\<lfloor>log 2 \<bar>x\<bar>\<rfloor> = e \<longleftrightarrow> 2 powi e \<le> \<bar>x\<bar> \<and> \<bar>x\<bar> < 2 powi (e + 1)"
proof -
  have pos: "0 < \<bar>x\<bar>" using assms by simp
  show ?thesis
    using floor_log_eq_powr_iff [OF pos, of 2 e] by (simp only: powr_powi)
qed

lemma floor_log2_eq:
  assumes "2 powi e \<le> \<bar>x\<bar>" "\<bar>x\<bar> < 2 powi (e + 1)"
  shows "\<lfloor>log 2 \<bar>x\<bar>\<rfloor> = e"
proof -
  have "0 < (2::real) powi e" by simp
  then have "0 < \<bar>x\<bar>" using assms(1) by linarith
  then have "x \<noteq> 0" by simp
  then show ?thesis using assms by (simp only: floor_log2_iff simp_thms)
qed

lemma floor_log2_bounds:
  assumes "x \<noteq> 0"
  shows "2 powi \<lfloor>log 2 \<bar>x\<bar>\<rfloor> \<le> \<bar>x\<bar>" "\<bar>x\<bar> < 2 powi (\<lfloor>log 2 \<bar>x\<bar>\<rfloor> + 1)"
  using floor_log2_iff [OF assms, of "\<lfloor>log 2 \<bar>x\<bar>\<rfloor>"] by simp_all

text \<open>The rounding error: half a unit in the last place.\<close>

lemma round_to_error:
  "\<bar>round_to p emin x - x\<bar> \<le> \<bar>x\<bar> * 2 powi (- int p) + 2 powi (emin - int p)"
proof (cases "x = 0")
  case True
  then show ?thesis by (simp add: round_to_def)
next
  case False
  define u where "u = ulp p emin x"
  define e where "e = \<lfloor>log 2 \<bar>x\<bar>\<rfloor>"
  have u: "0 < u" by (simp add: u_def ulp_pos)
  have "\<bar>of_int (rne (x / u)) - x / u\<bar> \<le> 1 / 2" by (rule rne_near)
  then have "\<bar>of_int (rne (x / u)) - x / u\<bar> * u \<le> 1 / 2 * u"
    using u by (intro mult_right_mono) simp_all
  moreover have "\<bar>of_int (rne (x / u)) - x / u\<bar> * u = \<bar>of_int (rne (x / u)) * u - x\<bar>"
  proof -
    have "\<bar>of_int (rne (x / u)) - x / u\<bar> * u = \<bar>(of_int (rne (x / u)) - x / u) * u\<bar>"
      using u by (simp add: abs_mult)
    also have "(of_int (rne (x / u)) - x / u) * u = of_int (rne (x / u)) * u - x"
      using u by (simp add: algebra_simps)
    finally show ?thesis .
  qed
  ultimately have err: "\<bar>round_to p emin x - x\<bar> \<le> u / 2"
    using False by (simp add: round_to_def u_def)
  have half: "u / 2 = 2 powi (max e emin - int p)"
  proof -
    have "(2::real) powi (max e emin - int p + 1) = 2 powi (max e emin - int p) * 2"
      by (rule power_int_add_1) simp
    then show ?thesis by (simp add: u_def ulp_def e_def)
  qed
  have "2 powi (max e emin - int p) \<le> \<bar>x\<bar> * 2 powi (- int p) + 2 powi (emin - int p)"
  proof (cases "emin \<le> e")
    case True
    have "(2::real) powi (e - int p) = 2 powi e * 2 powi (- int p)"
      using power_int_add [of "2::real" e "- int p"] by simp
    also have "\<dots> \<le> \<bar>x\<bar> * 2 powi (- int p)"
      using floor_log2_bounds(1) [OF False] by (intro mult_right_mono) (simp_all add: e_def)
    finally have "(2::real) powi (e - int p) \<le> \<bar>x\<bar> * 2 powi (- int p)" .
    moreover have "0 \<le> (2::real) powi (emin - int p)" by simp
    moreover have "max e emin = e" using True by simp
    ultimately show ?thesis by (simp only:)
  next
    case False
    have "0 \<le> \<bar>x\<bar> * 2 powi (- int p)" by simp
    moreover have "max e emin = emin" using False by simp
    ultimately show ?thesis by (simp only:)
  qed
  then show ?thesis using err half by linarith
qed

text \<open>A value with a significand of \<open>p\<close> bits is not changed.\<close>

lemma round_to_representable:
  assumes "\<bar>m\<bar> < 2 ^ p" "emin - int p + 1 \<le> k"
  shows "round_to p emin (of_int m * 2 powi k) = of_int m * 2 powi k"
proof (cases "m = 0")
  case True
  then show ?thesis by (simp add: round_to_def)
next
  case False
  define x :: real where "x = of_int m * 2 powi k"
  define e where "e = \<lfloor>log 2 \<bar>x\<bar>\<rfloor>"
  define j where "j = k - (max e emin - int p + 1)"
  have x0: "x \<noteq> 0" using False by (simp add: x_def)
  have "\<bar>x\<bar> = of_int \<bar>m\<bar> * 2 powi k" by (simp add: x_def abs_mult)
  also have "\<dots> < 2 ^ p * 2 powi k"
  proof -
    have "real_of_int \<bar>m\<bar> < real_of_int (2 ^ p)" using assms(1) by (simp only: of_int_less_iff)
    then show ?thesis by (intro mult_strict_right_mono) simp_all
  qed
  also have "\<dots> = 2 powi (int p + k)"
    using power_int_add [of "2::real" "int p" k] by (simp add: power_int_of_nat)
  finally have "\<bar>x\<bar> < 2 powi (int p + k)" .
  moreover have "2 powi e \<le> \<bar>x\<bar>" using floor_log2_bounds(1) [OF x0] by (simp add: e_def)
  ultimately have "(2::real) powi e < 2 powi (int p + k)" by linarith
  then have "e < int p + k"
    by (metis power_int_increasing linorder_not_le one_le_numeral order.strict_iff_not)
  then have j: "0 \<le> j" using assms(2) by (simp add: j_def max_def)
  have "x / ulp p emin x = of_int m * (2 powi k / 2 powi (max e emin - int p + 1))"
    by (simp add: x_def ulp_def e_def)
  also have "2 powi k / 2 powi (max e emin - int p + 1) = (2::real) powi j"
    unfolding j_def by (rule power_int_diff [symmetric]) simp
  also have "(2::real) powi j = of_int (2 ^ nat j)"
    using j by (simp add: power_int_def)
  finally have "x / ulp p emin x = of_int (m * 2 ^ nat j)" by simp
  then have "rne (x / ulp p emin x) = m * 2 ^ nat j" by (simp only: rne_of_int)
  then have "round_to p emin x = of_int (m * 2 ^ nat j) * ulp p emin x"
    using x0 by (simp add: round_to_def)
  also have "\<dots> = of_int m * ((2::real) powi j * 2 powi (max e emin - int p + 1))"
    using j by (simp add: power_int_def ulp_def e_def)
  also have "(2::real) powi j * 2 powi (max e emin - int p + 1) = 2 powi k"
    using power_int_add [of "2::real" j "max e emin - int p + 1"] by (simp add: j_def)
  finally show ?thesis by (simp add: x_def)
qed

lemma round_to_binade:
  assumes "2 powi e \<le> \<bar>x\<bar>" "\<bar>x\<bar> < 2 powi (e + 1)" "emin \<le> e"
  shows "round_to p emin x = of_int (rne (x / 2 powi (e - int p + 1))) * 2 powi (e - int p + 1)"
proof -
  have "0 < (2::real) powi e" by simp
  then have "0 < \<bar>x\<bar>" using assms(1) by linarith
  then have "x \<noteq> 0" by simp
  moreover have "\<lfloor>log 2 \<bar>x\<bar>\<rfloor> = e" using assms(1,2) by (rule floor_log2_eq)
  ultimately show ?thesis using assms(3) by (simp add: round_to_def ulp_def max_def)
qed

lemma to_double_binade:
  assumes "2 powi e \<le> \<bar>x\<bar>" "\<bar>x\<bar> < 2 powi (e + 1)" "- 1022 \<le> e"
  shows "to_double x = of_int (rne (x / 2 powi (e - 52))) * 2 powi (e - 52)"
  using round_to_binade [OF assms(1,2), of "- 1022" 53] assms(3) by (simp add: to_double_def)

lemma to_float_binade:
  assumes "2 powi e \<le> \<bar>x\<bar>" "\<bar>x\<bar> < 2 powi (e + 1)" "- 126 \<le> e"
  shows "to_float x = of_int (rne (x / 2 powi (e - 23))) * 2 powi (e - 23)"
  using round_to_binade [OF assms(1,2), of "- 126" 24] assms(3) by (simp add: to_float_def)


lemma eps_bounds: "0 < eps" "eps \<le> 1" "0 < tiny" "tiny \<le> 1"
  by (simp_all add: eps_def tiny_def power_int_minus field_simps)

lemma to_float_error: "\<bar>to_float x - x\<bar> \<le> \<bar>x\<bar> * eps + tiny"
  using round_to_error [of 24 "- 126" x] by (simp add: to_float_def eps_def tiny_def)

lemma to_double_error: "\<bar>to_double x - x\<bar> \<le> \<bar>x\<bar> * eps + tiny"
proof -
  have "\<bar>to_double x - x\<bar> \<le> \<bar>x\<bar> * 2 powi (- 53) + 2 powi (- 1075)"
    using round_to_error [of 53 "- 1022" x] by (simp add: to_double_def)
  moreover have "(2::real) powi (- 53) \<le> 2 powi (- 24)" "(2::real) powi (- 1075) \<le> 2 powi (- 150)"
    by (rule power_int_increasing; simp)+
  moreover have "\<bar>x\<bar> * 2 powi (- 53) \<le> \<bar>x\<bar> * 2 powi (- 24)"
    by (rule mult_left_mono) (use calculation(2) in simp_all)
  ultimately show ?thesis unfolding eps_def tiny_def by linarith
qed

lemma to_float_abs_le: "\<bar>to_float x\<bar> \<le> (1 + eps) * \<bar>x\<bar> + tiny"
  using to_float_error [of x] by (simp add: algebra_simps)

lemma to_double_abs_le: "\<bar>to_double x\<bar> \<le> (1 + eps) * \<bar>x\<bar> + tiny"
  using to_double_error [of x] by (simp add: algebra_simps)

lemma to_float_ge: "0 \<le> x \<Longrightarrow> (1 - eps) * x - tiny \<le> to_float x"
  using to_float_error [of x] by (simp add: algebra_simps)

lemma to_double_ge: "0 \<le> x \<Longrightarrow> (1 - eps) * x - tiny \<le> to_double x"
  using to_double_error [of x] by (simp add: algebra_simps)

lemma to_float_of_nat:
  assumes "n < 2 ^ 24"
  shows "to_float (real n) = real n"
proof -
  have "\<bar>int n\<bar> < 2 ^ 24" using assms by simp
  then have "round_to 24 (- 126) (of_int (int n) * 2 powi 0) = of_int (int n) * 2 powi 0"
    by (rule round_to_representable) simp
  then show ?thesis by (simp add: to_float_def)
qed

lemma to_double_of_nat:
  assumes "n < 2 ^ 53"
  shows "to_double (real n) = real n"
proof -
  have "\<bar>int n\<bar> < 2 ^ 53" using assms by simp
  then have "round_to 53 (- 1022) (of_int (int n) * 2 powi 0) = of_int (int n) * 2 powi 0"
    by (rule round_to_representable) simp
  then show ?thesis by (simp add: to_double_def)
qed

lemma to_float_numeral:
  "(numeral k :: nat) < 2 ^ 24 \<Longrightarrow> to_float (numeral k) = numeral k"
  using to_float_of_nat [of "numeral k"] by simp

lemma to_double_numeral:
  "(numeral k :: nat) < 2 ^ 53 \<Longrightarrow> to_double (numeral k) = numeral k"
  using to_double_of_nat [of "numeral k"] by simp

lemma to_float_0 [simp]: "to_float 0 = 0" and to_double_0 [simp]: "to_double 0 = 0"
  by (simp_all add: to_float_def to_double_def round_to_def)

lemma to_float_1 [simp]: "to_float 1 = 1" and to_double_1 [simp]: "to_double 1 = 1"
  using to_float_of_nat [of 1] to_double_of_nat [of 1] by simp_all

subsection \<open>The radius bin\<close>

lemma cauchy_schwarz2:
  fixes c s x y :: real
  assumes "c\<^sup>2 + s\<^sup>2 = 1" "0 \<le> x" "0 \<le> y"
  shows "\<bar>c\<bar> * x + \<bar>s\<bar> * y \<le> sqrt (x\<^sup>2 + y\<^sup>2)"
proof -
  have "(\<bar>c\<bar> * x + \<bar>s\<bar> * y)\<^sup>2 + (\<bar>s\<bar> * x - \<bar>c\<bar> * y)\<^sup>2 = (\<bar>c\<bar>\<^sup>2 + \<bar>s\<bar>\<^sup>2) * (x\<^sup>2 + y\<^sup>2)"
    by (simp add: power2_eq_square algebra_simps)
  then have "(\<bar>c\<bar> * x + \<bar>s\<bar> * y)\<^sup>2 + (\<bar>s\<bar> * x - \<bar>c\<bar> * y)\<^sup>2 = x\<^sup>2 + y\<^sup>2"
    using assms(1) by simp
  moreover have "0 \<le> (\<bar>s\<bar> * x - \<bar>c\<bar> * y)\<^sup>2" by (rule zero_le_power2)
  ultimately have "(\<bar>c\<bar> * x + \<bar>s\<bar> * y)\<^sup>2 \<le> x\<^sup>2 + y\<^sup>2" by linarith
  then show ?thesis by (rule real_le_rsqrt)
qed

text \<open>An entry of the tables \<open>kSin\<close> and \<open>kCos\<close>: two roundings of a sine or cosine.\<close>

lemma table_le: "\<bar>to_float (to_double v)\<bar> \<le> (1 + eps)\<^sup>2 * \<bar>v\<bar> + 3 * tiny"
proof -
  define E where "E = 1 + eps"
  have E: "0 \<le> E" "E \<le> 2" using eps_bounds by (simp_all add: E_def)
  have t: "0 \<le> tiny" using eps_bounds by simp
  have "\<bar>to_double v\<bar> \<le> E * \<bar>v\<bar> + tiny" unfolding E_def by (rule to_double_abs_le)
  then have "E * \<bar>to_double v\<bar> \<le> E * (E * \<bar>v\<bar> + tiny)" using E(1) by (rule mult_left_mono)
  moreover have "E * tiny \<le> 2 * tiny" using E(2) t by (rule mult_right_mono)
  moreover have "\<bar>to_float (to_double v)\<bar> \<le> E * \<bar>to_double v\<bar> + tiny"
    unfolding E_def by (rule to_float_abs_le)
  ultimately have "\<bar>to_float (to_double v)\<bar> \<le> E * E * \<bar>v\<bar> + 3 * tiny"
    by (simp add: algebra_simps)
  then show ?thesis by (simp add: E_def power2_eq_square)
qed

text \<open>The product of a table entry and a coordinate.\<close>

lemma product_le:
  assumes "\<bar>n\<bar> \<le> (1 + eps)\<^sup>2 * C + 3 * tiny" "0 \<le> X"
  shows "\<bar>to_float (n * X)\<bar> \<le> (1 + eps) ^ 3 * (C * X) + tiny * (6 * X + 1)"
proof -
  define E where "E = 1 + eps"
  have E: "0 \<le> E" "E \<le> 2" using eps_bounds by (simp_all add: E_def)
  have t: "0 \<le> tiny" using eps_bounds by simp
  have "\<bar>n\<bar> * X \<le> (E\<^sup>2 * C + 3 * tiny) * X"
    using assms unfolding E_def by (intro mult_right_mono)
  then have "E * (\<bar>n\<bar> * X) \<le> E * ((E\<^sup>2 * C + 3 * tiny) * X)"
    using E(1) by (rule mult_left_mono)
  moreover have "E * (tiny * X) \<le> 2 * (tiny * X)"
    using E(2) t assms(2) by (intro mult_right_mono) simp_all
  moreover have "\<bar>to_float (n * X)\<bar> \<le> E * \<bar>n * X\<bar> + tiny"
    unfolding E_def by (rule to_float_abs_le)
  moreover have "\<bar>n * X\<bar> = \<bar>n\<bar> * X" using assms(2) by (simp add: abs_mult)
  ultimately have "\<bar>to_float (n * X)\<bar> \<le> E ^ 3 * (C * X) + tiny * (6 * X + 1)"
    by (simp add: algebra_simps power2_eq_square power3_eq_cube)
  then show ?thesis by (simp add: E_def)
qed

text \<open>The value \<open>r\<close> of line 50 for a pixel with \<open>x + y \<le> N\<close>.\<close>

lemma r_le:
  fixes x y :: real
  assumes "c\<^sup>2 + s\<^sup>2 = 1" "0 \<le> x" "0 \<le> y" "x + y \<le> 2 ^ 17"
  shows "\<bar>to_float (to_float (to_float (to_double c) * x) + to_float (to_float (to_double s) * y))\<bar>
           \<le> (1 + eps) ^ 4 * sqrt (x\<^sup>2 + y\<^sup>2) + 2 ^ 21 * tiny"
proof -
  define E where "E = 1 + eps"
  define p1 where "p1 = to_float (to_float (to_double c) * x)"
  define p2 where "p2 = to_float (to_float (to_double s) * y)"
  define K where "K = \<bar>c\<bar> * x + \<bar>s\<bar> * y"
  have E: "0 \<le> E" "E \<le> 2" using eps_bounds by (simp_all add: E_def)
  have t: "0 \<le> tiny" using eps_bounds by simp
  have K: "K \<le> sqrt (x\<^sup>2 + y\<^sup>2)" unfolding K_def using assms(1,2,3) by (rule cauchy_schwarz2)
  have 1: "\<bar>p1\<bar> \<le> E ^ 3 * (\<bar>c\<bar> * x) + tiny * (6 * x + 1)"
    unfolding p1_def E_def by (rule product_le [OF table_le assms(2)])
  have 2: "\<bar>p2\<bar> \<le> E ^ 3 * (\<bar>s\<bar> * y) + tiny * (6 * y + 1)"
    unfolding p2_def E_def by (rule product_le [OF table_le assms(3)])
  have "\<bar>p1 + p2\<bar> \<le> E ^ 3 * K + tiny * (6 * (x + y) + 2)"
    using 1 2 by (simp add: K_def algebra_simps)
  then have "E * \<bar>p1 + p2\<bar> \<le> E * (E ^ 3 * K + tiny * (6 * (x + y) + 2))"
    using E(1) by (rule mult_left_mono)
  moreover have "E * (tiny * (6 * (x + y) + 2)) \<le> 2 * (tiny * (6 * (x + y) + 2))"
    using E(2) t assms(2,3) by (intro mult_right_mono) simp_all
  moreover have "\<bar>to_float (p1 + p2)\<bar> \<le> E * \<bar>p1 + p2\<bar> + tiny"
    unfolding E_def by (rule to_float_abs_le)
  ultimately have 3: "\<bar>to_float (p1 + p2)\<bar> \<le> E ^ 4 * K + tiny * (12 * (x + y) + 5)"
    by (simp add: algebra_simps power3_eq_cube power4_eq_xxxx)
  have "E ^ 4 * K \<le> E ^ 4 * sqrt (x\<^sup>2 + y\<^sup>2)"
    using K E(1) by (intro mult_left_mono) simp_all
  moreover have "tiny * (12 * (x + y) + 5) \<le> tiny * 2 ^ 21"
    using assms(4) t by (intro mult_left_mono) simp_all
  ultimately show ?thesis using 3 by (simp add: E_def p1_def p2_def algebra_simps)
qed

text \<open>The divisor \<open>kMaxRadius\<close>: two roundings of a square root that is at least \<open>1\<close>.\<close>

lemma kMax_ge:
  assumes "1 \<le> D"
  shows "(1 - 3 * eps) * D \<le> to_float (to_double D)"
proof -
  have e: "0 \<le> eps" "eps \<le> 1" and t: "0 \<le> tiny" using eps_bounds by simp_all
  have small: "2 * tiny \<le> eps"
    by (simp add: eps_def tiny_def power_int_minus field_simps)
  have 1: "(1 - eps) * D - tiny \<le> to_double D" using assms by (intro to_double_ge) simp
  have "0 \<le> (1 - eps) * D - tiny"
  proof -
    have "eps \<le> 1 / 4" "tiny \<le> 1 / 4" by (simp_all add: eps_def tiny_def power_int_minus field_simps)
    moreover have "eps * D \<le> 1 / 4 * D" using calculation(1) assms by (intro mult_right_mono) simp_all
    moreover have "(1 - eps) * D = D - eps * D" by (simp add: algebra_simps)
    ultimately show ?thesis using assms by linarith
  qed
  then have d0: "0 \<le> to_double D" using 1 by linarith
  have 2: "(1 - eps) * to_double D - tiny \<le> to_float (to_double D)"
    using d0 by (rule to_float_ge)
  have "(1 - eps) * ((1 - eps) * D - tiny) \<le> (1 - eps) * to_double D"
    using 1 e by (intro mult_left_mono) simp_all
  then have "(1 - eps) * ((1 - eps) * D - tiny) - tiny \<le> to_float (to_double D)"
    using 2 by linarith
  moreover have "(1 - 3 * eps) * D \<le> (1 - eps) * ((1 - eps) * D - tiny) - tiny"
  proof -
    have "eps * 1 \<le> eps * D" using assms e by (intro mult_left_mono) simp_all
    moreover have "0 \<le> eps * eps * D" using e assms by simp
    moreover have "0 \<le> eps * tiny" using e t by simp
    ultimately show ?thesis using small by (simp add: algebra_simps)
  qed
  ultimately show ?thesis by linarith
qed

lemma rne_nonneg: "0 \<le> x \<Longrightarrow> 0 \<le> rne x"
  by (simp add: rne_def)

lemma round_to_nonneg: "0 \<le> x \<Longrightarrow> 0 \<le> round_to p emin x"
  using ulp_pos [of p emin x] by (simp add: round_to_def rne_nonneg)

lemma to_float_nonneg: "0 \<le> x \<Longrightarrow> 0 \<le> to_float x"
  by (simp add: to_float_def round_to_nonneg)

lemma side_small:
  fixes W :: nat
  assumes "W * W < 2 ^ 31"
  shows "W < 2 ^ 16"
proof (rule ccontr)
  assume "\<not> W < 2 ^ 16"
  then have "(2::nat) ^ 16 \<le> W" by (simp only: not_less)
  then have "(2::nat) ^ 16 * 2 ^ 16 \<le> W * W" by (intro mult_le_mono)
  then show False using assms by simp
qed

text \<open>
  The largest distance of a pixel is below the diagonal by more than the rounding errors
  add up to.
\<close>

lemma pixel_below_diagonal:
  fixes W H x y :: nat
  assumes "x < W" "y < H" "W < 2 ^ 16" "H < 2 ^ 16"
  shows "sqrt ((real x)\<^sup>2 + (real y)\<^sup>2) \<le> (1 - 1 / 2 ^ 17) * sqrt (real (W * W + H * H))"
proof -
  define S where "S = W * W + H * H"
  have 1: "x * x + y * y + (W + H) \<le> S"
  proof -
    have "x * x \<le> x * W" "y * y \<le> y * H" using assms by simp_all
    moreover have "Suc x * W \<le> W * W" "Suc y * H \<le> H * H"
      using assms by (simp_all del: mult_Suc)
    moreover have "Suc x * W = x * W + W" "Suc y * H = y * H + H" by simp_all
    ultimately show ?thesis unfolding S_def by linarith
  qed
  have 2: "S \<le> 2 ^ 16 * (W + H)"
  proof -
    have le: "W \<le> 2 ^ 16" "H \<le> 2 ^ 16" using assms by simp_all
    have "W * W \<le> 2 ^ 16 * W" using le(1) by (rule mult_le_mono1)
    moreover have "H * H \<le> 2 ^ 16 * H" using le(2) by (rule mult_le_mono1)
    moreover have "2 ^ 16 * (W + H) = 2 ^ 16 * W + 2 ^ 16 * H" by (rule distrib_left)
    ultimately show ?thesis unfolding S_def by linarith
  qed
  have "real (x * x + y * y + (W + H)) \<le> real S" using 1 by (rule of_nat_mono)
  moreover have "real S \<le> real (2 ^ 16 * (W + H))" using 2 by (rule of_nat_mono)
  ultimately have "(real x)\<^sup>2 + (real y)\<^sup>2 \<le> real S - real S / 2 ^ 16"
    by (simp add: power2_eq_square)
  also have "\<dots> \<le> (1 - 1 / 2 ^ 17)\<^sup>2 * real S"
    by (simp add: power2_eq_square algebra_simps)
  finally have "sqrt ((real x)\<^sup>2 + (real y)\<^sup>2) \<le> sqrt ((1 - 1 / 2 ^ 17)\<^sup>2 * real S)"
    by (rule real_sqrt_le_mono)
  then show ?thesis by (simp add: real_sqrt_mult S_def)
qed

lemma factors: "(1 + eps) ^ 6 * (1 - 1 / 2 ^ 17) \<le> 1 - 3 * eps"
  by (simp add: eps_def power_int_minus power_divide)

lemma quotient_le:
  fixes L H m r :: real
  assumes r: "0 \<le> r" "r \<le> (1 + eps) ^ 4 * L + 2 ^ 21 * tiny"
    and L: "0 \<le> L" "(1 + eps) ^ 6 * L \<le> m"
    and H: "0 \<le> H" "H \<le> 2 ^ 16"
    and m: "1 / 2 \<le> m"
  shows "\<bar>to_float (to_float (r * H) / m)\<bar> \<le> H + 2 ^ 42 * tiny"
proof -
  define E where "E = 1 + eps"
  define t where "t = to_float (r * H)"
  have E: "0 \<le> E" "E \<le> 2" using eps_bounds by (simp_all add: E_def)
  have tn: "0 \<le> tiny" using eps_bounds by simp
  have m0: "0 < m" using m by simp
  have inv: "1 / m \<le> 2" using m m0 by (simp add: field_simps)
  have "r * H \<le> (E ^ 4 * L + 2 ^ 21 * tiny) * H"
    using r(2) H(1) unfolding E_def by (rule mult_right_mono)
  then have "E * (r * H) \<le> E * ((E ^ 4 * L + 2 ^ 21 * tiny) * H)"
    using E(1) by (rule mult_left_mono)
  moreover have "\<bar>t\<bar> \<le> E * \<bar>r * H\<bar> + tiny"
    unfolding t_def E_def by (rule to_float_abs_le)
  moreover have "\<bar>r * H\<bar> = r * H" using r(1) H(1) by simp
  moreover have "E * (tiny * H) \<le> 2 * (tiny * 2 ^ 16)"
    using E tn H by (intro mult_mono) simp_all
  ultimately have t: "\<bar>t\<bar> \<le> E ^ 5 * L * H + 2 ^ 39 * tiny"
    using tn by (simp add: algebra_simps eval_nat_numeral)
  have "E * \<bar>t\<bar> \<le> E * (E ^ 5 * L * H + 2 ^ 39 * tiny)"
    using t E(1) by (rule mult_left_mono)
  moreover have "E * tiny \<le> 2 * tiny" using E(2) tn by (rule mult_right_mono)
  ultimately have "E * \<bar>t\<bar> \<le> E ^ 6 * L * H + 2 ^ 40 * tiny"
    by (simp add: algebra_simps eval_nat_numeral)
  moreover have "E ^ 6 * L * H \<le> m * H"
    using L(2) H(1) unfolding E_def by (intro mult_right_mono)
  ultimately have "E * \<bar>t\<bar> \<le> m * H + 2 ^ 40 * tiny" by linarith
  then have "E * \<bar>t\<bar> / m \<le> (m * H + 2 ^ 40 * tiny) / m"
    using m0 by (simp add: divide_right_mono)
  also have "\<dots> = H + 2 ^ 40 * tiny * (1 / m)" using m0 by (simp add: field_simps)
  also have "\<dots> \<le> H + 2 ^ 40 * tiny * 2"
    using inv tn by (intro add_left_mono mult_left_mono) simp_all
  finally have "E * \<bar>t\<bar> / m \<le> H + 2 ^ 41 * tiny" by simp
  moreover have "\<bar>to_float (t / m)\<bar> \<le> E * \<bar>t / m\<bar> + tiny"
    unfolding E_def by (rule to_float_abs_le)
  moreover have "E * \<bar>t / m\<bar> = E * \<bar>t\<bar> / m" using m0 by simp
  ultimately have "\<bar>to_float (t / m)\<bar> \<le> H + 2 ^ 41 * tiny + tiny" by linarith
  then show ?thesis using tn by (simp add: t_def)
qed

lemma radius_bin_inside:
  assumes "x < w g" "y < h g" "w g * w g + h g * h g < 2 ^ 31"
  shows "\<exists>ri<h g. radius_bin g x y a = Inr ri"
proof -
  define S where "S = w g * w g + h g * h g"
  define D where "D = sqrt (real S)"
  define m where "m = to_float (to_double D)"
  define L where "L = sqrt ((real x)\<^sup>2 + (real y)\<^sup>2)"
  define H where "H = real (h g) - 1"
  define r where "r = \<bar>to_float (to_float (kCos a * real x) + to_float (kSin a * real y))\<bar>"
  define q where "q = to_float (to_float (r * H) / m)"
  have "w g * w g < 2 ^ 31" "h g * h g < 2 ^ 31" using assms(3) by simp_all
  then have side: "w g < 2 ^ 16" "h g < 2 ^ 16" by (simp_all only: side_small)
  have S1: "1 \<le> S" using assms(1) by (cases "w g") (simp_all add: S_def)
  have "int32 (int (w g) * int (w g) + int (h g) * int (h g)) = int S"
  proof -
    have "int (w g) * int (w g) + int (h g) * int (h g) = int S" by (simp add: S_def)
    moreover have "int S < int (2 ^ 31)" using assms(3) unfolding S_def by (simp only: of_nat_less_iff)
    then have "int S < 2 ^ 31" by simp
    ultimately show ?thesis by (simp add: int32_id)
  qed
  then have kmax: "kMaxRadius g = Some m"
    by (simp add: kMaxRadius_def m_def D_def)
  have "1 \<le> real S" using S1 by simp
  then have D1: "1 \<le> D" unfolding D_def by simp
  have m_ge: "(1 - 3 * eps) * D \<le> m" unfolding m_def using D1 by (rule kMax_ge)
  have e4: "eps \<le> 1 / 8" by (simp add: eps_def power_int_minus)
  have half: "1 / 2 \<le> m"
  proof -
    have "eps * D \<le> 1 / 8 * D" using e4 D1 by (intro mult_right_mono) simp_all
    moreover have "(1 - 3 * eps) * D = D - 3 * (eps * D)" by (simp add: algebra_simps)
    ultimately show ?thesis using m_ge D1 by linarith
  qed
  have L0: "0 \<le> L" by (simp add: L_def)
  have L_le: "L \<le> (1 - 1 / 2 ^ 17) * D"
    unfolding L_def D_def S_def using assms(1,2) side by (rule pixel_below_diagonal)
  have key: "(1 + eps) ^ 6 * L \<le> m"
  proof -
    have "(1 + eps) ^ 6 * L \<le> (1 + eps) ^ 6 * ((1 - 1 / 2 ^ 17) * D)"
      using L_le eps_bounds by (intro mult_left_mono) simp_all
    also have "\<dots> = ((1 + eps) ^ 6 * (1 - 1 / 2 ^ 17)) * D" by simp
    also have "\<dots> \<le> (1 - 3 * eps) * D"
      using factors D1 by (intro mult_right_mono) simp_all
    finally show ?thesis using m_ge by linarith
  qed
  have fx: "to_float (real x) = real x" "to_float (real y) = real y"
    using assms(1,2) side by (simp_all add: to_float_of_nat)
  have fh: "to_float (real (h g) - 1) = H"
  proof -
    have "real (h g) - 1 = real (h g - 1)" using assms(2) by (simp add: of_nat_diff)
    moreover have "h g - 1 < 2 ^ 24" using side by simp
    ultimately show ?thesis by (simp only: H_def to_float_of_nat)
  qed
  have H: "0 \<le> H" "H \<le> 2 ^ 16" using assms(2) side by (simp_all add: H_def)
  have r0: "0 \<le> r" by (simp add: r_def)
  have r_le: "r \<le> (1 + eps) ^ 4 * L + 2 ^ 21 * tiny"
  proof -
    have "real x + real y \<le> 2 ^ 17"
    proof -
      have "x + y \<le> 2 ^ 17" using assms(1,2) side by simp
      then have "real (x + y) \<le> real (2 ^ 17)" by (rule of_nat_mono)
      then show ?thesis by simp
    qed
    then show ?thesis
      unfolding r_def L_def kCos_def kSin_def by (intro r_le) simp_all
  qed
  have "\<bar>q\<bar> \<le> H + 2 ^ 42 * tiny"
    unfolding q_def using r0 r_le L0 key H half by (rule quotient_le)
  moreover have "2 ^ 42 * tiny < 1" by (simp add: tiny_def power_int_minus)
  ultimately have q_less: "q < real (h g)" by (simp add: H_def)
  have q0: "0 \<le> q"
  proof -
    have "0 \<le> to_float (r * H)" using r0 H(1) by (intro to_float_nonneg) simp
    moreover have "0 < m" using half by simp
    ultimately show ?thesis unfolding q_def by (intro to_float_nonneg) simp
  qed
  have "q < 2 ^ 32"
  proof -
    have "real (h g) < real (2 ^ 16)" using side(2) by (simp only: of_nat_less_iff)
    then show ?thesis using q_less by simp
  qed
  then have "radius_bin g x y a = Inr (nat \<lfloor>q\<rfloor>)"
    using q0 half
    by (simp add: radius_bin_def Let_def kmax fx fh r_def [symmetric] q_def [symmetric])
  moreover have "nat \<lfloor>q\<rfloor> < h g"
  proof -
    have "\<lfloor>q\<rfloor> < int (h g)" using q_less by (simp add: floor_less_iff)
    then show ?thesis using assms(2) by simp
  qed
  ultimately show ?thesis by blast
qed


subsection \<open>The votes\<close>

lemma for_each_upt:
  assumes "P 0 s" "\<And>i s. i < n \<Longrightarrow> P i s \<Longrightarrow> \<exists>s'. body i s = Inr s' \<and> P (Suc i) s'"
  shows "\<exists>s'. for_each [0..<n] body s = Inr s' \<and> P n s'"
  using assms(2)
proof (induction n)
  case 0
  then show ?case using assms(1) by simp
next
  case (Suc n)
  obtain s1 where s1: "for_each [0..<n] body s = Inr s1" "P n s1"
    using Suc.IH Suc.prems by (metis less_Suc_eq)
  obtain s2 where "body n s1 = Inr s2" "P (Suc n) s2"
    using Suc.prems [of n s1] s1(2) by auto
  then show ?case using s1 by (simp add: for_each_append)
qed

lemma cell_index_eq:
  assumes "a < 360" "a' < 360"
  shows "ri' * 360 + a' = ri * 360 + a \<longleftrightarrow> ri' = ri \<and> a' = (a :: nat)"
proof
  assume eq: "ri' * 360 + a' = ri * 360 + a"
  have "(ri' * 360 + a') div 360 = ri'" "(ri * 360 + a) div 360 = ri"
    using assms by simp_all
  then have "ri' = ri" using eq by simp
  then show "ri' = ri \<and> a' = a" using eq by simp
qed simp

lemma vote_column:
  assumes "length hm = rows * 360" "ri < rows" "a < 360" "column_sum rows hm a + 1 < 2 ^ 32"
    and "rows * 360 < 2 ^ 32"
  shows "\<exists>hm'. vote ri a hm = Inr hm' \<and> length hm' = length hm
       \<and> column_sum rows hm' a = column_sum rows hm a + 1
       \<and> (\<forall>a'<360. a' \<noteq> a \<longrightarrow> column_sum rows hm' a' = column_sum rows hm a')"
proof -
  define i where "i = ri * 360 + a"
  define hm' where "hm' = hm[i := hm ! i + 1]"
  have i: "i < length hm"
  proof -
    have "ri * 360 + a < Suc ri * 360" using assms(3) by simp
    also have "\<dots> \<le> rows * 360" using assms(2) by (simp del: mult_Suc)
    finally show ?thesis using assms(1) by (simp add: i_def)
  qed
  have "i < 2 ^ 32" using i assms(1,5) by simp
  then have unsigned: "i mod 2 ^ 32 = i" by simp
  have vote: "vote ri a hm = Inr hm'"
    using i unsigned by (simp add: vote_def kNumAngles_def Let_def i_def hm'_def)
  have cell_le: "unat (hm ! i) \<le> column_sum rows hm a"
  proof -
    have "unat (hm ! (ri * 360 + a)) \<le> (\<Sum>r<rows. unat (hm ! (r * 360 + a)))"
      using assms(2) by (intro member_le_sum) simp_all
    then show ?thesis by (simp add: column_sum_def kNumAngles_def i_def)
  qed
  have "unat (hm ! i) + unat (1 :: 32 word) < 2 ^ LENGTH(32)"
    using cell_le assms(4) by simp
  then have inc: "unat (hm ! i + 1) = unat (hm ! i) + 1"
    using unat_add_lem [of "hm ! i" 1] by simp
  have other: "column_sum rows hm' a' = column_sum rows hm a'" if "a' < 360" "a' \<noteq> a" for a'
  proof -
    have "hm' ! (r * 360 + a') = hm ! (r * 360 + a')" for r
      using cell_index_eq [OF assms(3) that(1), of r ri] that(2)
      by (simp add: hm'_def i_def)
    then show ?thesis by (simp add: column_sum_def kNumAngles_def)
  qed
  have same: "column_sum rows hm' a = column_sum rows hm a + 1"
  proof -
    have at: "unat (hm' ! (ri * 360 + a)) = unat (hm ! (ri * 360 + a)) + 1"
      using i inc by (simp add: hm'_def i_def)
    have off: "hm' ! (r * 360 + a) = hm ! (r * 360 + a)" if "r \<noteq> ri" for r
      using cell_index_eq [OF assms(3) assms(3), of r ri] that by (simp add: hm'_def i_def)
    have fin: "finite {..<rows}" "ri \<in> {..<rows}" using assms(2) by simp_all
    have "(\<Sum>r<rows. unat (hm' ! (r * 360 + a)))
        = unat (hm' ! (ri * 360 + a)) + (\<Sum>r\<in>{..<rows} - {ri}. unat (hm' ! (r * 360 + a)))"
      by (rule sum.remove [OF fin])
    also have "(\<Sum>r\<in>{..<rows} - {ri}. unat (hm' ! (r * 360 + a)))
        = (\<Sum>r\<in>{..<rows} - {ri}. unat (hm ! (r * 360 + a)))"
      by (rule sum.cong) (simp_all add: off)
    finally have "(\<Sum>r<rows. unat (hm' ! (r * 360 + a)))
        = unat (hm ! (ri * 360 + a)) + (\<Sum>r\<in>{..<rows} - {ri}. unat (hm ! (r * 360 + a))) + 1"
      using at by simp
    moreover have "(\<Sum>r<rows. unat (hm ! (r * 360 + a)))
        = unat (hm ! (ri * 360 + a)) + (\<Sum>r\<in>{..<rows} - {ri}. unat (hm ! (r * 360 + a)))"
      by (rule sum.remove [OF fin])
    ultimately show ?thesis by (simp add: column_sum_def kNumAngles_def)
  qed
  show ?thesis using vote same other by (simp add: hm'_def)
qed

text \<open>The index of a sample that is inside the graymap.\<close>

lemma pixel_index:
  assumes "y * w g + x < length (data g)" "length (data g) < 2 ^ 31"
  shows "int32 (int y * int (w g) + int x) = int (y * w g + x)"
proof -
  define n where "n = y * w g + x"
  have "n < 2 ^ 31" using assms by (simp add: n_def)
  then have "int n < int (2 ^ 31)" by (simp only: of_nat_less_iff)
  then have "int32 (int n) = int n" by (intro int32_id) simp_all
  then show ?thesis by (simp add: n_def)
qed

lemma pixel_votes_inside:
  assumes "y * w g + x < length (data g)" "length (data g) < 2 ^ 31"
  shows "pixel_votes g y x hm =
           (if data g ! (y * w g + x) = 255 then Inr hm
            else for_each [0..<360]
                   (\<lambda>a hm. case radius_bin g x y a of Inl e \<Rightarrow> Inl e | Inr ri \<Rightarrow> vote ri a hm) hm)"
proof -
  define n where "n = y * w g + x"
  have i: "int32 (int y * int (w g) + int x) = int n"
    unfolding n_def using assms by (rule pixel_index)
  have "n < length (data g)" using assms(1) by (simp add: n_def)
  then have inside: "\<not> (int n < 0 \<or> int (length (data g)) \<le> int n)" by simp
  have k: "nat kNumAngles = 360" by (simp add: kNumAngles_def)
  show ?thesis
    unfolding pixel_votes_def Let_def i n_def [symmetric]
    by (simp only: inside if_False nat_int k)
qed

lemma pixel_votes_foreground:
  assumes "voted (h g) c hm" "c + 1 < 2 ^ 32" "\<forall>a<360. \<exists>ri<h g. radius_bin g x y a = Inr ri"
    and "y * w g + x < length (data g)" "data g ! (y * w g + x) \<noteq> 255"
    and "h g * 360 < 2 ^ 32" "length (data g) < 2 ^ 31"
  shows "\<exists>hm'. pixel_votes g y x hm = Inr hm' \<and> voted (h g) (c + 1) hm'"
proof -
  define P where "P n m \<longleftrightarrow> length m = h g * 360
      \<and> (\<forall>a<360. column_sum (h g) m a = (if a < n then c + 1 else c))" for n m
  define body where
    "body a m = (case radius_bin g x y a of Inl e \<Rightarrow> Inl e | Inr ri \<Rightarrow> vote ri a m)" for a m
  have "\<exists>hm'. for_each [0..<360] body hm = Inr hm' \<and> P 360 hm'"
  proof (rule for_each_upt)
    show "P 0 hm" using assms(1) by (simp add: P_def voted_def)
  next
    fix a m assume a: "a < 360" and m: "P a m"
    obtain ri where ri: "ri < h g" "radius_bin g x y a = Inr ri" using assms(3) a by blast
    have "column_sum (h g) m a + 1 < 2 ^ 32" using m a assms(2) by (simp add: P_def)
    then obtain m' where m': "vote ri a m = Inr m'" "length m' = length m"
      "column_sum (h g) m' a = column_sum (h g) m a + 1"
      "\<forall>a'<360. a' \<noteq> a \<longrightarrow> column_sum (h g) m' a' = column_sum (h g) m a'"
      using vote_column [of m "h g" ri a] m a ri(1) assms(6) by (auto simp: P_def)
    have "column_sum (h g) m' a' = (if a' < Suc a then c + 1 else c)" if "a' < 360" for a'
    proof (cases "a' = a")
      case True
      then show ?thesis using m'(3) m a by (simp add: P_def)
    next
      case False
      then have "column_sum (h g) m' a' = column_sum (h g) m a'" using m'(4) that by simp
      then show ?thesis using m that False by (auto simp: P_def)
    qed
    then show "\<exists>s'. body a m = Inr s' \<and> P (Suc a) s'"
      using m' m ri(2) by (simp add: P_def body_def)
  qed
  moreover have "body = (\<lambda>a m. case radius_bin g x y a of Inl e \<Rightarrow> Inl e | Inr ri \<Rightarrow> vote ri a m)"
    by (intro ext) (simp add: body_def)
  then have "pixel_votes g y x hm = for_each [0..<360] body hm"
    using assms(5) by (simp add: pixel_votes_inside [OF assms(4,7)])
  ultimately show ?thesis by (auto simp: P_def voted_def)
qed

lemma seen_Suc:
  assumes "p < length (data g)"
  shows "seen g (Suc p) = (if data g ! p = 255 then seen g p else seen g p + 1)"
  using assms by (simp add: seen_def take_Suc_conv_app_nth)

lemma seen_le: "seen g p \<le> length (data g)"
proof -
  have "seen g p \<le> length (take p (data g))" unfolding seen_def by (rule length_filter_le)
  then show ?thesis by simp
qed

lemma pixel_votes_seen:
  assumes "voted (h g) (seen g (y * w g + x)) hm" "length (data g) < 2 ^ 31"
    and "\<forall>a<360. \<exists>ri<h g. radius_bin g x y a = Inr ri" "y * w g + x < length (data g)"
    and "h g * 360 < 2 ^ 32"
  shows "\<exists>hm'. pixel_votes g y x hm = Inr hm' \<and> voted (h g) (seen g (Suc (y * w g + x))) hm'"
proof (cases "data g ! (y * w g + x) = 255")
  case True
  then show ?thesis
    using assms(1,4) by (simp add: pixel_votes_inside [OF assms(4,2)] seen_Suc)
next
  case False
  have "seen g (Suc (y * w g + x)) = seen g (y * w g + x) + 1"
    using False assms(4) by (simp add: seen_Suc)
  moreover have "seen g (Suc (y * w g + x)) \<le> length (data g)" by (rule seen_le)
  moreover have "(2::nat) ^ 31 < 2 ^ 32" by simp
  ultimately have small: "seen g (y * w g + x) + 1 < 2 ^ 32" using assms(2) by linarith
  show ?thesis
    using pixel_votes_foreground [of g "seen g (y * w g + x)" hm x y,
        OF assms(1) small assms(3,4) False assms(5,2)]
      \<open>seen g (Suc (y * w g + x)) = seen g (y * w g + x) + 1\<close> by simp
qed

lemma row_votes_seen:
  assumes "voted (h g) (seen g (y * w g)) hm" "length (data g) = w g * h g"
    and "w g * h g < 2 ^ 31" "y < h g" "\<forall>x<w g. \<forall>a<360. \<exists>ri<h g. radius_bin g x y a = Inr ri"
    and "h g * 360 < 2 ^ 32"
  shows "\<exists>hm'. for_each [0..<w g] (\<lambda>x. pixel_votes g y x) hm = Inr hm'
       \<and> voted (h g) (seen g (Suc y * w g)) hm'"
proof -
  have "\<exists>hm'. for_each [0..<w g] (\<lambda>x. pixel_votes g y x) hm = Inr hm'
       \<and> voted (h g) (seen g (y * w g + w g)) hm'"
  proof (rule for_each_upt [where P = "\<lambda>x m. voted (h g) (seen g (y * w g + x)) m"])
    show "voted (h g) (seen g (y * w g + 0)) hm" using assms(1) by simp
  next
    fix x m assume x: "x < w g" and m: "voted (h g) (seen g (y * w g + x)) m"
    have "y * w g + x < Suc y * w g" using x by simp
    also have "\<dots> \<le> h g * w g" using assms(4) by (intro mult_le_mono1) simp
    finally have inside: "y * w g + x < length (data g)" using assms(2) by (simp add: mult.commute)
    show "\<exists>s'. pixel_votes g y x m = Inr s' \<and> voted (h g) (seen g (y * w g + Suc x)) s'"
      using pixel_votes_seen [OF m _ _ inside] assms(2,3,5,6) x by simp
  qed
  then show ?thesis by (simp add: add.commute)
qed

text \<open>Without overflow of \<open>w*w + h*h\<close> the other \<open>int\<close> and \<open>unsigned\<close> values fit as well.\<close>

lemma sizes_fit:
  fixes W H :: nat
  assumes "W * W + H * H < 2 ^ 31"
  shows "W * H < 2 ^ 31" "H * 360 < 2 ^ 32" "nat (int32 (int H * 360)) = H * 360"
proof -
  have "W * H \<le> W * W + H * H"
  proof (cases "W \<le> H")
    case True
    then have "W * H \<le> H * H" by (rule mult_le_mono1)
    then show ?thesis by linarith
  next
    case False
    then have "H \<le> W" by simp
    then have "W * H \<le> W * W" by (rule mult_le_mono2)
    then show ?thesis by linarith
  qed
  then show "W * H < 2 ^ 31" using assms by simp
  have "H * H < 2 ^ 31" using assms by simp
  then have H: "H < 2 ^ 16" by (rule side_small)
  then show "H * 360 < 2 ^ 32" by simp
  define n where "n = H * 360"
  have "int n < 2 ^ 31" using H by (simp add: n_def)
  then have "int32 (int n) = int n" by (intro int32_id) simp_all
  then have "nat (int32 (int n)) = n" by simp
  then show "nat (int32 (int H * 360)) = H * 360" by (simp add: n_def)
qed

lemma hough_accumulate_voted:
  assumes "length (data g) = w g * h g" "w g * w g + h g * h g < 2 ^ 31"
  shows "\<exists>hm. hough_accumulate g = Inr hm \<and> voted (h g) (foreground g) hm"
proof -
  note fit = sizes_fit [OF assms(2)]
  have bins: "\<forall>x<w g. \<forall>a<360. \<exists>ri<h g. radius_bin g x y a = Inr ri" if "y < h g" for y
    using radius_bin_inside [OF _ that assms(2)] by blast
  have zero: "voted (h g) (seen g (0 * w g)) (replicate (h g * 360) 0)"
  proof -
    have "ri * 360 + a < h g * 360" if "ri < h g" "a < 360" for ri a :: nat
    proof -
      have "ri * 360 + a < Suc ri * 360" using that(2) by simp
      also have "\<dots> \<le> h g * 360" using that(1) by (simp del: mult_Suc)
      finally show ?thesis .
    qed
    then show ?thesis by (simp add: voted_def seen_def column_sum_def kNumAngles_def)
  qed
  have "\<exists>hm. for_each [0..<h g] (\<lambda>y. for_each [0..<w g] (\<lambda>x. pixel_votes g y x))
      (replicate (h g * 360) 0) = Inr hm \<and> voted (h g) (seen g (h g * w g)) hm"
  proof (rule for_each_upt [where P = "\<lambda>y m. voted (h g) (seen g (y * w g)) m"])
    show "voted (h g) (seen g (0 * w g)) (replicate (h g * 360) 0)" by (rule zero)
  next
    fix y m assume "y < h g" "voted (h g) (seen g (y * w g)) m"
    then show "\<exists>s'. for_each [0..<w g] (\<lambda>x. pixel_votes g y x) m = Inr s'
        \<and> voted (h g) (seen g (Suc y * w g)) s'"
      using row_votes_seen [of g y m] assms(1) fit(1,2) bins by simp
  qed
  moreover have "seen g (h g * w g) = foreground g"
    using assms(1) by (simp add: seen_def foreground_def mult.commute)
  ultimately show ?thesis
    unfolding hough_accumulate_def kNumAngles_def fit(3) by simp
qed

lemma voted_cell_le:
  assumes "voted rows c hm" "i < length hm"
  shows "unat (hm ! i) \<le> c"
proof -
  define ri where "ri = i div 360"
  define a where "a = i mod 360"
  have i: "i = ri * 360 + a" and a: "a < 360" by (simp_all add: ri_def a_def)
  have "i < rows * 360" using assms by (simp add: voted_def)
  then have ri: "ri < rows" by (simp add: ri_def less_mult_imp_div_less)
  have "unat (hm ! (ri * 360 + a)) \<le> (\<Sum>r<rows. unat (hm ! (r * 360 + a)))"
    using ri by (intro member_le_sum) simp_all
  also have "\<dots> = c" using assms(1) a by (simp add: voted_def column_sum_def kNumAngles_def)
  finally show ?thesis using i by simp
qed

lemma foreground_le: "foreground g \<le> length (data g)"
  unfolding foreground_def by (rule length_filter_le)

subsection \<open>The angles of the bins\<close>

text \<open>The angles of some bins, and the bound of line 109.\<close>

lemma deg_of_rho: "deg_of a = rho a"
  by (simp add: deg_of_def rho_def)

lemma rho_0: "rho 0 = 0"
  by (simp add: rho_def)

lemma rho_5: "rho 5 = 5856353 / 134217728"
proof -
  have 1: "to_double (5 * M_PI) = 4421398595017775 / 281474976710656"
    by (subst to_double_binade [where e = 3]) (simp_all add: M_PI_def rne_def)
  have 2: "to_double (4421398595017775 / 281474976710656 / 360) = 6288211335136391 / 144115188075855872"
    by (subst to_double_binade [where e = "- 5"]) (simp_all add: rne_def)
  have 3: "to_float (6288211335136391 / 144115188075855872) = 5856353 / 134217728"
    by (subst to_float_binade [where e = "- 5"]) (simp_all add: rne_def)
  have "rho 5 = to_float (to_double (to_double (5 * M_PI) / 360))" by (simp add: rho_def)
  then show ?thesis by (simp only: 1 2 3)
qed

lemma rho_25: "rho 25 = 14640883 / 67108864"
proof -
  have 1: "to_double (25 * M_PI) = 5526748243772219 / 70368744177664"
    by (subst to_double_binade [where e = 6]) (simp_all add: M_PI_def rne_def)
  have 2: "to_double (5526748243772219 / 70368744177664 / 360) = 7860264168920489 / 36028797018963968"
    by (subst to_double_binade [where e = "- 3"]) (simp_all add: rne_def)
  have 3: "to_float (7860264168920489 / 36028797018963968) = 14640883 / 67108864"
    by (subst to_float_binade [where e = "- 3"]) (simp_all add: rne_def)
  have "rho 25 = to_float (to_double (to_double (25 * M_PI) / 360))" by (simp add: rho_def)
  then show ?thesis by (simp only: 1 2 3)
qed

lemma rho_90: "rho 90 = 13176795 / 16777216"
proof -
  have 1: "to_double (90 * M_PI) = 4974073419394997 / 17592186044416"
    by (subst to_double_binade [where e = 8]) (simp_all add: M_PI_def rne_def)
  have 2: "to_double (4974073419394997 / 17592186044416 / 360) = 884279719003555 / 1125899906842624"
    by (subst to_double_binade [where e = "- 1"]) (simp_all add: rne_def)
  have 3: "to_float (884279719003555 / 1125899906842624) = 13176795 / 16777216"
    by (subst to_float_binade [where e = "- 1"]) (simp_all add: rne_def)
  have "rho 90 = to_float (to_double (to_double (90 * M_PI) / 360))" by (simp add: rho_def)
  then show ?thesis by (simp only: 1 2 3)
qed

lemma rho_180: "rho 180 = 13176795 / 8388608"
proof -
  have 1: "to_double (180 * M_PI) = 4974073419394997 / 8796093022208"
    by (subst to_double_binade [where e = 9]) (simp_all add: M_PI_def rne_def)
  have 2: "to_double (4974073419394997 / 8796093022208 / 360) = 884279719003555 / 562949953421312"
    by (subst to_double_binade [where e = 0]) (simp_all add: rne_def)
  have 3: "to_float (884279719003555 / 562949953421312) = 13176795 / 8388608"
    by (subst to_float_binade [where e = 0]) (simp_all add: rne_def)
  have "rho 180 = to_float (to_double (to_double (180 * M_PI) / 360))" by (simp add: rho_def)
  then show ?thesis by (simp only: 1 2 3)
qed

lemma ten_degrees:
  "to_double (to_double (10 * M_PI) / 180) = 6288211335136391 / 36028797018963968"
proof -
  have 1: "to_double (10 * M_PI) = 4421398595017775 / 140737488355328"
    by (subst to_double_binade [where e = 4]) (simp_all add: M_PI_def rne_def)
  have 2: "to_double (4421398595017775 / 140737488355328 / 180) = 6288211335136391 / 36028797018963968"
    by (subst to_double_binade [where e = "- 3"]) (simp_all add: rne_def)
  show ?thesis by (simp only: 1 2)
qed

lemma to_float_bin_90: "to_float (13176795 / 16777216) = 13176795 / 16777216"
  by (subst to_float_binade [where e = "- 1"]) (simp_all add: rne_def)

lemma parallel_examples:
  "\<not> parallel (deg_of 90) (deg_of 0)" "\<not> parallel (deg_of 90) (deg_of 180)"
proof -
  have "to_float (13176795 / 16777216 - 13176795 / 8388608) = - (13176795 / 16777216)"
    by (subst to_float_binade [where e = "- 1"]) (simp_all add: rne_def)
  then show "\<not> parallel (deg_of 90) (deg_of 0)" "\<not> parallel (deg_of 90) (deg_of 180)"
    by (simp_all add: parallel_def deg_of_rho rho_0 rho_90 rho_180 ten_degrees to_float_bin_90)
qed

text \<open>
  Two bins that are \<open>20\<close> bins, ten degrees, apart: the difference of the two \<open>float\<close>s is
  above the bound, and rounded to \<open>float\<close> it is below.
\<close>

lemma parallel_rounded:
  "parallel (deg_of 25) (deg_of 5)"
  "\<not> \<bar>deg_of 25 - deg_of 5\<bar> < to_double (to_double (10 * M_PI) / 180)"
proof -
  have "to_float (14640883 / 67108864 - 5856353 / 134217728) = 5856353 / 33554432"
    by (subst to_float_binade [where e = "- 3"]) (simp_all add: rne_def)
  then show "parallel (deg_of 25) (deg_of 5)"
    by (simp add: parallel_def deg_of_rho rho_5 rho_25 ten_degrees)
  show "\<not> \<bar>deg_of 25 - deg_of 5\<bar> < to_double (to_double (10 * M_PI) / 180)"
    by (simp add: deg_of_rho rho_5 rho_25 ten_degrees)
qed

text \<open>The angles of the bins \<open>90\<close> and \<open>180\<close> are more than ten degrees apart.\<close>

lemma far_apart: "\<not> \<bar>deg_of 90 - deg_of 180\<bar> < 10 * pi / 180"
proof -
  have "10 * pi / 180 < 13176795 / 16777216" using pi_less_4 by simp
  then show ?thesis by (simp add: deg_of_rho rho_90 rho_180)
qed

subsection \<open>Two runs of the votes\<close>

lemma table_0: "kCos 0 = 1" "kSin 0 = 0"
  by (simp_all add: kCos_def kSin_def rho_0)

lemma sqrt_9: "sqrt 9 = 3"
  by (rule real_sqrt_unique) simp_all

lemma sqrt_25: "sqrt 25 = 5"
  by (rule real_sqrt_unique) simp_all

text \<open>
  A graymap of \<open>65536\<close> by \<open>3\<close> samples with one dark pixel, the last of the first row:
  \<open>w*w\<close> is \<open>2^32\<close>, which a 32-bit \<open>int\<close> holds as \<open>0\<close>.
\<close>

lemma wide_run:
  assumes "w g = 65536" "h g = 3" "data g = (replicate 196608 255)[65535 := 0]"
  shows "kMaxRadius g = Some 3" "radius_bin g 65535 0 0 = Inr 43690"
    "hough_accumulate g = Inl (Out_of_bounds 15728400)"
proof -
  have "int32 (65536 * 65536 + 3 * 3) = 9" by (simp add: int32_def)
  moreover have "to_float (to_double 3) = 3"
    by (simp add: to_float_numeral to_double_numeral)
  ultimately show kmax: "kMaxRadius g = Some 3"
    by (simp add: kMaxRadius_def assms(1,2) sqrt_9)
  have fl: "to_float 65535 = 65535" "to_float 2 = 2" "to_float 131070 = 131070"
    "to_float 43690 = 43690"
    by (simp_all add: to_float_numeral)
  show bin: "radius_bin g 65535 0 0 = Inr 43690"
    by (simp add: radius_bin_def kmax table_0 fl assms(1,2))
  have len: "length (data g) = 196608" by (simp add: assms(3))
  have white: "pixel_votes g 0 x hm = Inr hm" if "x < 65535" for x hm
  proof -
    have "data g ! x = 255" using that by (simp add: assms(3))
    moreover have "0 * w g + x < length (data g)" using that len by simp
    ultimately show ?thesis
      using pixel_votes_inside [of 0 g x hm] len by simp
  qed
  have dark: "pixel_votes g 0 65535 (replicate 1080 0) = Inl (Out_of_bounds 15728400)"
  proof -
    have "data g ! 65535 \<noteq> 255" by (simp add: assms(3))
    moreover have "0 * w g + 65535 < length (data g)" using len by simp
    moreover have "[0..<360] = 0 # [1..<360]" by (simp add: upt_rec)
    moreover have "vote 43690 0 (replicate 1080 0) = Inl (Out_of_bounds 15728400)"
      by (simp add: vote_def kNumAngles_def)
    ultimately show ?thesis
      using pixel_votes_inside [of 0 g 65535 "replicate 1080 0"] len
      by (simp add: bin)
  qed
  have "[0..<65536] = [0..<65535] @ [65535]"
    using upt_Suc_append [of 0 65535] by simp
  then have split: "[0..<w g] = [0..<65535] @ 65535 # []" by (simp only: assms(1))
  have first: "for_each [0..<w g] (\<lambda>x. pixel_votes g 0 x) (replicate 1080 0)
      = Inl (Out_of_bounds 15728400)"
    unfolding split
    by (rule for_each_fails [where I = "\<lambda>hm. hm = replicate 1080 0"]) (simp_all add: white dark)
  have rows: "[0..<h g] = 0 # [1..<3]" by (simp add: assms(2) upt_rec)
  have cells: "nat (int32 (int (h g) * kNumAngles)) = 1080"
    by (simp add: assms(2) kNumAngles_def int32_def)
  show "hough_accumulate g = Inl (Out_of_bounds 15728400)"
    unfolding hough_accumulate_def rows cells by (simp only: for_each.simps first sum.case)
qed

text \<open>Two pixels of a graymap of \<open>3\<close> by \<open>4\<close> samples that vote in different rows.\<close>

lemma small_bins:
  assumes "w g = 3" "h g = 4"
  shows "radius_bin g 0 0 0 = Inr 0" "radius_bin g 2 0 0 = Inr 1"
proof -
  have "int32 (3 * 3 + 4 * 4) = 25" by (simp add: int32_def)
  moreover have "to_float (to_double 5) = 5"
    by (simp add: to_float_numeral to_double_numeral)
  ultimately have kmax: "kMaxRadius g = Some 5"
    by (simp add: kMaxRadius_def assms sqrt_25)
  have fl: "to_float 2 = 2" "to_float 3 = 3" "to_float 6 = 6"
    by (simp_all add: to_float_numeral)
  have q: "to_float (6 / 5) = 5033165 / 4194304"
    by (subst to_float_binade [where e = 0]) (simp_all add: rne_def)
  show "radius_bin g 0 0 0 = Inr 0"
    by (simp add: radius_bin_def kmax table_0 assms)
  show "radius_bin g 2 0 0 = Inr 1"
    by (simp add: radius_bin_def kmax table_0 fl q assms)
qed

subsection \<open>Intersections\<close>

lemma intersect_crosses:
  "intersect point l1 l2 = (if crosses l1 l2 then (True, crossing l1 l2) else (False, point))"
  by (simp add: intersect_def crosses_def crossing_def determinant_def Let_def)

lemma and_intersect_unfold:
  "and_intersect i a b ls (ok, corners) =
     (if ok \<and> crosses (ls ! a) (ls ! b) then (True, corners[i := crossing (ls ! a) (ls ! b)])
      else (False, corners))"
  by (cases ok) (simp_all add: and_intersect_def intersect_crosses)

lemma crosses_examples:
  "crosses (0, 5) (pi / 2, 7)" "\<not> crosses (0, 5) (0, 9)" "crossing (0, 5) (pi / 2, 7) = (5, 7)"
  by (simp_all add: crosses_def crossing_def determinant_def)

section \<open>The claims about the corner finder\<close>

text \<open>
  C7. The claim: the sweep around a candidate cell wraps the angle index modulo
  \<open>360\<close> on both sides and clamps the radius index, so every access lies inside the grid.

  The code wraps the angle index on one side only: \<open>aii = ad < 0 ? ad + kNumAngles : ad\<close>
  leaves an index of \<open>360\<close> or more as it is. Around a candidate in the last \<open>15\<close> columns
  the index \<open>rd*kNumAngles + aii\<close> then addresses the next row, and in the last row, which
  the sweep reaches whenever the candidate is in the last \<open>16\<close> rows, the first such access
  is to \<open>houghmap[kNumRadii * kNumAngles]\<close>, one cell past the end of the array. (Around
  a candidate in the columns up to \<open>344\<close> every access is inside: \<open>sweep_stays_inside\<close>.)
\<close>

theorem sweep_leaves_the_array:
  assumes "0 \<le> ri" "ri < R" "R \<le> ri + 16" "345 \<le> ai" "ai < 360"
    and "length hm = nat (R * 360)"
  shows "sweep R ri ai hm = Inl (Out_of_bounds (R * 360))"
proof -
  define I where "I s \<longleftrightarrow> length (houghmap s) = nat (R * 360)" for s :: sweep_state
  define lo where "lo = imax (ri - 15) 0"
  define s0 where "s0 = \<lparr>houghmap = hm, best = hm ! nat (ri * 360 + ai), besta = ai, bestr = ri\<rparr>"
  define cols where "cols = [ai - 15 ..ai + 15]"
  define row where "row rd = for_each cols (\<lambda>ad. sweep_cell rd ad)" for rd
  have lo: "0 \<le> lo" "lo \<le> R - 1" using assms by (simp_all add: lo_def imax_def)
  have hi: "imin (ri + 15) (R - 1) = R - 1" using assms by (simp add: imin_def)
  have rows: "[lo..R - 1] = [lo..R - 2] @ (R - 1) # []"
    using upto_rec2 [of lo "R - 1"] lo by simp
  have cols: "cols = [ai - 15..359] @ 360 # [361..ai + 15]"
  proof -
    have "[ai - 15 ..ai + 15] = [ai - 15..360 - 1] @ [360..ai + 15]"
      using assms by (intro upto_split1) simp_all
    moreover have "[360..ai + 15] = 360 # [360 + 1..ai + 15]"
      using assms by (intro upto_rec1) simp
    ultimately show ?thesis by (simp add: cols_def)
  qed
  have I0: "I s0" by (simp add: I_def s0_def assms)
  have inside: "\<exists>s'. row rd s = Inr s' \<and> I s'" if "rd \<in> set [lo..R - 2]" "I s" for rd s
    unfolding row_def
  proof (rule for_each_invariant [where I = I])
    show "I s" by fact
    fix ad s1 assume ad: "ad \<in> set cols" and s1: "I s1"
    have "0 \<le> ad" "ad \<le> 374" using ad assms by (simp_all add: cols_def)
    moreover have "0 \<le> rd" "rd \<le> R - 2" using that(1) lo by simp_all
    ultimately have "0 \<le> rd * 360 + ad" "rd * 360 + ad < int (length (houghmap s1))"
      using s1 assms by (simp_all add: I_def)
    then show "\<exists>s'. sweep_cell rd ad s1 = Inr s' \<and> I s'"
      using sweep_cell_inside [of ad rd s1] \<open>0 \<le> ad\<close> s1 by (simp add: I_def)
  qed
  have last: "row (R - 1) s = Inl (Out_of_bounds (R * 360))" if "I s" for s
    unfolding row_def cols
  proof (rule for_each_fails [where I = I])
    show "I s" by fact
    fix ad s1 assume ad: "ad \<in> set [ai - 15..359]" and s1: "I s1"
    have "0 \<le> ad" "ad \<le> 359" using ad assms by simp_all
    then have "0 \<le> (R - 1) * 360 + ad" "(R - 1) * 360 + ad < int (length (houghmap s1))"
      using s1 assms by (simp_all add: I_def)
    then show "\<exists>s'. sweep_cell (R - 1) ad s1 = Inr s' \<and> I s'"
      using sweep_cell_inside [of ad "R - 1" s1] \<open>0 \<le> ad\<close> s1 by (simp add: I_def)
  next
    fix s1 assume "I s1"
    then have "int (length (houghmap s1)) \<le> (R - 1) * 360 + 360"
      using assms by (simp add: I_def)
    then have "sweep_cell (R - 1) 360 s1 = Inl (Out_of_bounds ((R - 1) * 360 + 360))"
      by (intro sweep_cell_outside) simp_all
    then show "sweep_cell (R - 1) 360 s1 = Inl (Out_of_bounds (R * 360))"
      by (simp add: algebra_simps)
  qed
  have "for_each ([lo..R - 2] @ (R - 1) # []) row s0 = Inl (Out_of_bounds (R * 360))"
    by (rule for_each_fails [where I = I]) (use I0 inside last in auto)
  moreover have "0 \<le> ri * 360 + ai" "ri * 360 + ai < int (length hm)"
    using assms by simp_all
  ultimately show ?thesis
    unfolding sweep_def
    by (simp add: Let_def kNumAngles_def hi rows lo_def [symmetric] s0_def [symmetric]
        cols_def [symmetric] row_def [symmetric])
qed

theorem sweep_leaves_the_array_witness:
  "(0::int) \<le> 0 \<and> (0::int) < 3 \<and> (3::int) \<le> 0 + 16 \<and> (345::int) \<le> 348 \<and> (348::int) < 360
   \<and> length ((replicate 1080 0)[348 := 1 :: 32 word]) = nat (3 * 360)
   \<and> sweep 3 0 348 ((replicate 1080 0)[348 := 1]) = Inl (Out_of_bounds 1080)"
  using sweep_leaves_the_array [of 0 3 348 "(replicate 1080 0)[348 := 1]"] by simp

text \<open>
  C8. The claim: a peak that is not parallel to the first pair and arrives when the second
  pair is set replaces the outer line of the second pair only if it is parallel to that
  pair and has the larger radius; a peak parallel to neither pair changes nothing.

  The code compares the angle of a peak with the first pair only, by the test of line
  109. The peak of bin \<open>90\<close> with radius \<open>2\<close> is parallel neither to the first pair, of bin
  \<open>0\<close>, nor to the second, of bin \<open>180\<close>: the test of line 109 fails for both, and the
  angles are more than ten degrees apart. It replaces the outer line of the second pair.
\<close>

theorem line_pair_neither_parallel:
  "\<not> parallel (deg_of 90) (deg_of 0) \<and> \<not> parallel (deg_of 90) (deg_of 180)
   \<and> \<not> \<bar>deg_of 90 - deg_of 180\<bar> < 10 * pi / 180
   \<and> line_pair (deg_of 90) 2
         \<lparr>lines = [(deg_of 0, 1), (deg_of 0, 1), (deg_of 180, 1), (deg_of 180, 1)],
          line_set = [True, True]\<rparr>
       = \<lparr>lines = [(deg_of 0, 1), (deg_of 0, 1), (deg_of 180, 1), (deg_of 90, 2)],
          line_set = [True, True]\<rparr>"
  using parallel_examples far_apart by (simp add: line_pair_def)

text \<open>
  C8, as the code has it: a peak for which the test of line 109 fails, arriving when the
  second pair is set, replaces the outer line of the second pair exactly when its radius
  is larger than that line's, whatever its angle to the second pair; the first pair, the
  inner line of the second pair and the flags stay as they are. The test of line 109 is
  the one the code makes, on the rounded difference of the two \<open>float\<close>s: of two bins
  that are ten degrees apart it may hold (\<open>parallel_rounded\<close>).
\<close>

theorem line_pair_second_family:
  assumes "line_set s ! 0" "line_set s ! 1" "\<not> parallel deg (fst (lines s ! 0))"
    and "length (lines s) = 4"
  shows "line_pair deg radius s =
           (if radius > snd (lines s ! 3) then s\<lparr>lines := (lines s)[3 := (deg, radius)]\<rparr> else s)
       \<and> lines (line_pair deg radius s) ! 0 = lines s ! 0
       \<and> lines (line_pair deg radius s) ! 1 = lines s ! 1
       \<and> lines (line_pair deg radius s) ! 2 = lines s ! 2
       \<and> line_set (line_pair deg radius s) = line_set s"
  using assms by (simp add: line_pair_def)

theorem line_pair_second_family_witness:
  "line_pair (deg_of 90) 2
     \<lparr>lines = [(deg_of 0, 1), (deg_of 0, 1), (deg_of 180, 1), (deg_of 180, 1)],
      line_set = [True, True]\<rparr>
   = \<lparr>lines = [(deg_of 0, 1), (deg_of 0, 1), (deg_of 180, 1), (deg_of 90, 2)],
      line_set = [True, True]\<rparr>
   \<and> line_pair (deg_of 90) (1 / 2)
     \<lparr>lines = [(deg_of 0, 1), (deg_of 0, 1), (deg_of 180, 1), (deg_of 180, 1)],
      line_set = [True, True]\<rparr>
   = \<lparr>lines = [(deg_of 0, 1), (deg_of 0, 1), (deg_of 180, 1), (deg_of 180, 1)],
      line_set = [True, True]\<rparr>"
  using
    line_pair_second_family [of "\<lparr>lines = [(deg_of 0, 1), (deg_of 0, 1), (deg_of 180, 1),
      (deg_of 180, 1)], line_set = [True, True]\<rparr>" "deg_of 90" 2]
    line_pair_second_family [of "\<lparr>lines = [(deg_of 0, 1), (deg_of 0, 1), (deg_of 180, 1),
      (deg_of 180, 1)], line_set = [True, True]\<rparr>" "deg_of 90" "1 / 2"]
    parallel_examples(1)
  by simp

text \<open>
  C9. The claim: the corner finder succeeds exactly when the four intersections succeed,
  and when one fails no corner has been written to the caller's array.

  The four calls of \<open>intersect\<close> are the operands of one chain of \<open>&&\<close>, and each call
  writes its corner before the next is made. With the lines \<open>L0 = (0, 5)\<close>,
  \<open>L2 = (pi/2, 7)\<close> and \<open>L3 = (0, 9)\<close> the first intersection succeeds and writes the
  corner \<open>(5, 7)\<close>, the second fails, and the function returns \<open>false\<close> with the first
  corner written and the other three not.
\<close>

theorem corners_partly_written:
  "corners_of_lines [(0, 5), (0, 6), (pi / 2, 7), (0, 9)] [(0, 0), (0, 0), (0, 0), (0, 0)]
     = (False, [(5, 7), (0, 0), (0, 0), (0, 0)])"
  by (simp add: corners_of_lines_def and_intersect_unfold crosses_examples)

text \<open>
  C9, as the code has it: the result is \<open>true\<close> exactly when all four pairs of lines pass
  the test of \<open>intersect\<close> (the absolute value of the determinant of the normals is not
  below \<open>1e-4\<close>); a corner is written exactly when its own intersection and all those
  before it in the chain succeed, and keeps the caller's value otherwise.
\<close>

theorem corners_of_lines_result:
  assumes "length corners = 4"
  shows "fst (corners_of_lines ls corners) =
           (crosses (ls ! 0) (ls ! 2) \<and> crosses (ls ! 0) (ls ! 3)
            \<and> crosses (ls ! 1) (ls ! 2) \<and> crosses (ls ! 1) (ls ! 3))
       \<and> snd (corners_of_lines ls corners) ! 0 =
           (if crosses (ls ! 0) (ls ! 2) then crossing (ls ! 0) (ls ! 2) else corners ! 0)
       \<and> snd (corners_of_lines ls corners) ! 1 =
           (if crosses (ls ! 0) (ls ! 2) \<and> crosses (ls ! 0) (ls ! 3)
            then crossing (ls ! 0) (ls ! 3) else corners ! 1)
       \<and> snd (corners_of_lines ls corners) ! 2 =
           (if crosses (ls ! 0) (ls ! 2) \<and> crosses (ls ! 0) (ls ! 3) \<and> crosses (ls ! 1) (ls ! 2)
            then crossing (ls ! 1) (ls ! 2) else corners ! 2)
       \<and> snd (corners_of_lines ls corners) ! 3 =
           (if crosses (ls ! 0) (ls ! 2) \<and> crosses (ls ! 0) (ls ! 3) \<and> crosses (ls ! 1) (ls ! 2)
               \<and> crosses (ls ! 1) (ls ! 3)
            then crossing (ls ! 1) (ls ! 3) else corners ! 3)"
  using assms by (simp add: corners_of_lines_def and_intersect_unfold)

theorem corners_of_lines_result_witness:
  "length [(0, 0), (0, 0), (0, 0), (0, 0 :: real)] = 4
   \<and> fst (corners_of_lines [(0, 5), (0, 6), (pi / 2, 7), (0, 9)] [(0, 0), (0, 0), (0, 0), (0, 0)]) = False
   \<and> snd (corners_of_lines [(0, 5), (0, 6), (pi / 2, 7), (0, 9)] [(0, 0), (0, 0), (0, 0), (0, 0)]) ! 0 = (5, 7)
   \<and> snd (corners_of_lines [(0, 5), (0, 6), (pi / 2, 7), (0, 9)] [(0, 0), (0, 0), (0, 0), (0, 0)]) ! 1 = (0, 0)"
  using corners_of_lines_result [of "[(0, 0), (0, 0), (0, 0), (0, 0)]" "[(0, 5), (0, 6), (pi / 2, 7), (0, 9)]"]
  by (simp add: crosses_examples)

text \<open>
  C10. The claim: after the votes on a graymap of any width and height, the cells of every
  angle add up, over the radius bins, to the number of foreground pixels, so that no cell
  exceeds that number.

  \<open>kMaxRadius\<close> is the square root of the \<open>int\<close> \<open>w*w + h*h\<close>. On a graymap of \<open>65536\<close>
  by \<open>3\<close> samples this sum is \<open>9\<close> on a 32-bit machine and \<open>kMaxRadius\<close> is \<open>3\<close>; the pixel
  \<open>(65535, 0)\<close> has, at the angle \<open>0\<close>, the values \<open>r = 65535\<close> and
  \<open>ri = 65535 * 2 / 3 = 43690\<close>, and its vote goes to the cell \<open>15728400\<close> of an array of
  \<open>1080\<close> cells.
\<close>

theorem hough_accumulate_overflow:
  "hough_accumulate \<lparr>w = 65536, h = 3, data = (replicate 196608 255)[65535 := 0]\<rparr>
     = Inl (Out_of_bounds 15728400)"
  by (rule wide_run) simp_all

text \<open>
  C10, as the code has it: on a graymap of \<open>w * h\<close> samples such that \<open>w*w + h*h\<close> is an
  \<open>int\<close>, every radius bin is below \<open>h\<close> (\<open>radius_bin_inside\<close>: the rounding errors of the
  \<open>float\<close> operations are smaller than the distance of a pixel from the far end of the
  diagonal), every vote is inside the array, and after the votes the cells of every
  angle add up to the number of foreground pixels; so no cell exceeds that number, which
  is at most \<open>w * h\<close>, and no counter wraps around. (The votes of one angle do go to
  different rows: \<open>small_bins\<close>, on the graymap of the example below.)
\<close>

theorem hough_accumulate_column_sums:
  assumes "length (data g) = w g * h g" "w g * w g + h g * h g < 2 ^ 31"
  shows "\<exists>hm. hough_accumulate g = Inr hm \<and> length hm = h g * 360
       \<and> (\<forall>a<360. column_sum (h g) hm a = foreground g)
       \<and> (\<forall>i<length hm. unat (hm ! i) \<le> foreground g)
       \<and> foreground g \<le> w g * h g"
proof -
  obtain hm where hm: "hough_accumulate g = Inr hm" "voted (h g) (foreground g) hm"
    using hough_accumulate_voted [OF assms] by blast
  have "\<forall>i<length hm. unat (hm ! i) \<le> foreground g"
    using voted_cell_le [OF hm(2)] by blast
  moreover have "foreground g \<le> w g * h g"
    using foreground_le [of g] assms(1) by simp
  ultimately show ?thesis using hm by (simp add: voted_def)
qed

theorem hough_accumulate_column_sums_witness:
  "\<exists>hm. hough_accumulate
           \<lparr>w = 3, h = 4, data = [0, 255, 7, 255, 255, 255, 255, 9, 255, 255, 255, 0]\<rparr> = Inr hm
       \<and> length hm = 1440 \<and> column_sum 4 hm 0 = 4 \<and> column_sum 4 hm 90 = 4
       \<and> column_sum 4 hm 359 = 4 \<and> unat (hm ! 360) \<le> 4"
proof -
  define g where "g = \<lparr>w = 3, h = 4, data = [0, 255, 7, 255, 255, 255, 255, 9, 255, 255, 255, 0 :: 8 word]\<rparr>"
  have 1: "length (data g) = w g * h g" by (simp add: g_def)
  have 2: "w g * w g + h g * h g < 2 ^ 31" by (simp add: g_def)
  have fg: "foreground g = 4" by (simp add: g_def foreground_def)
  obtain hm where "hough_accumulate g = Inr hm" "length hm = h g * 360"
    "\<forall>a<360. column_sum (h g) hm a = foreground g" "\<forall>i<length hm. unat (hm ! i) \<le> foreground g"
    using hough_accumulate_column_sums [OF 1 2] by blast
  then have "hough_accumulate g = Inr hm \<and> length hm = 1440
      \<and> column_sum 4 hm 0 = 4 \<and> column_sum 4 hm 90 = 4 \<and> column_sum 4 hm 359 = 4
      \<and> unat (hm ! 360) \<le> 4"
    using fg by (simp add: g_def)
  then show ?thesis unfolding g_def by blast
qed

end
